theory Spec2Isabelle
  imports Main "HOL-Library.Sublist"
begin

section \<open>Strings\<close>

text \<open>
  A string of the program is modelled as the list of its Unicode code points. The regular
  expressions of the line parser carry the \<open>u\<close> flag and therefore work on code points;
  the remaining string operations (\<open>includes\<close>, \<open>startsWith\<close>, \<open>split\<close>,
  \<open>substring\<close>) work on UTF-16 code units, which gives the same result on well-formed
  strings whenever the pattern is well-formed, as all patterns of the program are.
\<close>

type_synonym uchar = nat
type_synonym ustring = "nat list"

definition ustr :: "string \<Rightarrow> ustring" where
  "ustr s = map of_char s"

text \<open>The class \<open>\s\<close> of ECMAScript, which is also what \<open>trim\<close> removes.\<close>

definition isWhiteSpace :: "uchar \<Rightarrow> bool" where
  "isWhiteSpace c \<longleftrightarrow>
     c = 9 \<or> c = 10 \<or> c = 11 \<or> c = 12 \<or> c = 13 \<or> c = 32 \<or> c = 160 \<or> c = 5760 \<or>
     (8192 \<le> c \<and> c \<le> 8202) \<or> c = 8232 \<or> c = 8233 \<or> c = 8239 \<or> c = 8287 \<or>
     c = 12288 \<or> c = 65279"

text \<open>The line terminators, which \<open>.\<close> does not match.\<close>

definition isLineTerminator :: "uchar \<Rightarrow> bool" where
  "isLineTerminator c \<longleftrightarrow> c = 10 \<or> c = 13 \<or> c = 8232 \<or> c = 8233"

definition isDigit :: "uchar \<Rightarrow> bool" where
  "isDigit c \<longleftrightarrow> 48 \<le> c \<and> c \<le> 57"

definition trim :: "ustring \<Rightarrow> ustring" where
  "trim s = rev (dropWhile isWhiteSpace (rev (dropWhile isWhiteSpace s)))"

fun startsWith :: "ustring \<Rightarrow> ustring \<Rightarrow> bool" where
  "startsWith s [] = True"
| "startsWith [] (p # ps) = False"
| "startsWith (c # cs) (p # ps) = (c = p \<and> startsWith cs ps)"

fun includesStr :: "ustring \<Rightarrow> ustring \<Rightarrow> bool" where
  "includesStr [] sub = (sub = [])"
| "includesStr (c # cs) sub = (startsWith (c # cs) sub \<or> includesStr cs sub)"

text \<open>\<open>breakOn sep s\<close> cuts \<open>s\<close> at the first occurrence of \<open>sep\<close>.\<close>

fun breakOn :: "ustring \<Rightarrow> ustring \<Rightarrow> (ustring \<times> ustring) option" where
  "breakOn sep [] = (if sep = [] then Some ([], []) else None)"
| "breakOn sep (c # cs) =
     (if startsWith (c # cs) sep then Some ([], drop (length sep) (c # cs))
      else map_option (\<lambda>(a, b). (c # a, b)) (breakOn sep cs))"

lemma breakOn_length:
  "breakOn sep s = Some (a, b) \<Longrightarrow> length a + length sep + length b = length s"
proof (induction s arbitrary: a)
  case Nil
  then show ?case by (simp split: if_splits)
next
  case (Cons c cs)
  have sw: "startsWith t p \<Longrightarrow> length p \<le> length t" for t p :: ustring
    by (induction t p rule: startsWith.induct) auto
  show ?case
  proof (cases "startsWith (c # cs) sep")
    case True
    with Cons.prems sw [OF True] show ?thesis by auto
  next
    case False
    with Cons.prems obtain a' where "breakOn sep cs = Some (a', b)" and "a = c # a'"
      by auto
    with Cons.IH [of a'] show ?thesis by simp
  qed
qed

text \<open>\<open>s.split(sep)\<close>; with the empty separator the string falls into its characters.\<close>

function split :: "ustring \<Rightarrow> ustring \<Rightarrow> ustring list" where
  "split s sep =
     (if sep = [] then map (\<lambda>c. [c]) s
      else case breakOn sep s of
             None \<Rightarrow> [s]
           | Some (a, b) \<Rightarrow> a # split b sep)"
  by pat_completeness auto
termination
proof (relation "measure (\<lambda>(s, sep). length s)")
  show "wf (measure (\<lambda>(s, sep). length s))" by simp
next
  fix s sep :: ustring and x2 :: "ustring \<times> ustring" and x y :: ustring
  assume "sep \<noteq> []" and "breakOn sep s = Some x2" and "(x, y) = x2"
  then have "breakOn sep s = Some (x, y)" by simp
  from breakOn_length [OF this] \<open>sep \<noteq> []\<close>
  show "((y, sep), (s, sep)) \<in> measure (\<lambda>(s, sep). length s)" by (cases sep) auto
qed

declare split.simps [simp del]

text \<open>
  Comparison of strings with \<open><\<close>: lexicographic on the characters. (On code units the
  order of two characters differs from this one only when one of them lies beyond U+FFFF;
  the dates that the program compares are ASCII.)
\<close>

fun strLess :: "ustring \<Rightarrow> ustring \<Rightarrow> bool" where
  "strLess [] [] = False"
| "strLess [] (y # ys) = True"
| "strLess (x # xs) [] = False"
| "strLess (x # xs) (y # ys) = (x < y \<or> (x = y \<and> strLess xs ys))"

fun stripPrefix :: "ustring \<Rightarrow> ustring \<Rightarrow> ustring option" where
  "stripPrefix [] s = Some s"
| "stripPrefix (p # ps) [] = None"
| "stripPrefix (p # ps) (c # cs) = (if p = c then stripPrefix ps cs else None)"

text \<open>\<open>\s+\<close> at the start of a string: the rest after the whole run of white space.\<close>

fun skipWs1 :: "ustring \<Rightarrow> ustring option" where
  "skipWs1 [] = None"
| "skipWs1 (c # cs) = (if isWhiteSpace c then Some (dropWhile isWhiteSpace cs) else None)"

text \<open>\<open>\d{4}-\d{2}-\d{2}\<close>, matched against a whole string.\<close>

fun isDate :: "ustring \<Rightarrow> bool" where
  "isDate [y1, y2, y3, y4, h1, m1, m2, h2, d1, d2] \<longleftrightarrow>
     isDigit y1 \<and> isDigit y2 \<and> isDigit y3 \<and> isDigit y4 \<and> h1 = 45 \<and>
     isDigit m1 \<and> isDigit m2 \<and> h2 = 45 \<and> isDigit d1 \<and> isDigit d2"
| "isDate _ \<longleftrightarrow> False"

section \<open>The environment\<close>

text \<open>
  Two things come from the runtime and not from the repository: the date of today
  (\<open>getToday\<close> reads the clock) and \<open>toLowerCase\<close>. Both are parameters. Of
  \<open>toLowerCase\<close> two facts are kept. On ASCII text it maps \<open>A\<close> to \<open>Z\<close> onto \<open>a\<close> to \<open>z\<close>
  and keeps the other characters. And a text that has been lower-cased stays as it is
  when it is lower-cased again, and so does every part that is cut out of it: only
  upper-case and title-case characters change, and none of them is left. This also holds
  where a character becomes two (U+0130) and where the result depends on the
  neighbours of a character (the final sigma). A lower-casing is a function with these
  two properties; \<open>lowerAscii\<close>, which leaves everything beyond ASCII alone, is one.
\<close>

definition lowerAscii :: "ustring \<Rightarrow> ustring" where
  "lowerAscii s = map (\<lambda>c. if 65 \<le> c \<and> c \<le> 90 then c + 32 else c) s"

definition isLowerCasing :: "(ustring \<Rightarrow> ustring) \<Rightarrow> bool" where
  "isLowerCasing f \<longleftrightarrow>
     (\<forall>s. (\<forall>c \<in> set s. c < 128) \<longrightarrow> f s = lowerAscii s) \<and>
     (\<forall>s p. sublist p (f s) \<longrightarrow> f p = p)"

lemma isLowerCasing_lowerAscii: "isLowerCasing lowerAscii"
  unfolding isLowerCasing_def
proof (intro conjI allI impI)
  fix s :: ustring
  show "lowerAscii s = lowerAscii s" by (rule refl)
next
  fix s p :: ustring
  assume "sublist p (lowerAscii s)"
  then have "set p \<subseteq> set (lowerAscii s)" by (rule set_mono_sublist)
  then have "\<forall>c \<in> set p. \<not> (65 \<le> c \<and> c \<le> 90)" by (auto simp: lowerAscii_def)
  then show "lowerAscii p = p" by (simp add: lowerAscii_def map_idI)
qed

typedef lowerCasing = "{f. isLowerCasing f}"
  using isLowerCasing_lowerAscii by blast

record env =
  today :: ustring
  lowerCase :: lowerCasing

definition toLowerCase :: "env \<Rightarrow> ustring \<Rightarrow> ustring" where
  "toLowerCase e s = Rep_lowerCasing (lowerCase e) s"

section \<open>Tasks\<close>

datatype status = Complete | Incomplete | Cancelled | In_progress

datatype priority = Highest | High | Medium | Low | Lowest

record Task =
  task_id :: ustring
  description :: ustring
  status :: status
  statusSymbol :: uchar
  filePath :: ustring
  lineNumber :: int
  tags :: "ustring list"
  dueDate :: "ustring option"
  scheduledDate :: "ustring option"
  createdDate :: "ustring option"
  startDate :: "ustring option"
  priority :: "priority option"
  recurrence :: "ustring option"
  originalMarkdown :: ustring

fun priorityName :: "priority \<Rightarrow> ustring" where
  "priorityName Highest = ustr ''highest''"
| "priorityName High = ustr ''high''"
| "priorityName Medium = ustr ''medium''"
| "priorityName Low = ustr ''low''"
| "priorityName Lowest = ustr ''lowest''"

section \<open>The filter evaluator\<close>

text \<open>
  \<open>applyFilter\<close> lower-cases and trims its filter, tries the three combinators in the
  order of the source and otherwise falls through the chain of leaf predicates, here
  \<open>leafFilter\<close>, which ends in the search of the filter text in the description.
\<close>

definition normalize :: "env \<Rightarrow> ustring \<Rightarrow> ustring" where
  "normalize e f = trim (toLowerCase e f)"

definition dateOf :: "ustring \<Rightarrow> ustring option" where
  "dateOf r = (if isDate r then Some r else None)"

text \<open>\<open>/^due\s+(?:on\s+)?(\d{4}-\d{2}-\d{2})$/\<close> and its two siblings; the result is group 1.\<close>

definition dueDateMatch :: "ustring \<Rightarrow> ustring option" where
  "dueDateMatch f =
     (case Option.bind (stripPrefix (ustr ''due'') f) skipWs1 of
        None \<Rightarrow> None
      | Some r \<Rightarrow>
          (case Option.bind (stripPrefix (ustr ''on'') r) skipWs1 of
             Some r' \<Rightarrow> dateOf r'
           | None \<Rightarrow> dateOf r))"

definition dueBeforeMatch :: "ustring \<Rightarrow> ustring option" where
  "dueBeforeMatch f =
     Option.bind (Option.bind (Option.bind (Option.bind
       (stripPrefix (ustr ''due'') f) skipWs1) (stripPrefix (ustr ''before''))) skipWs1) dateOf"

definition dueAfterMatch :: "ustring \<Rightarrow> ustring option" where
  "dueAfterMatch f =
     Option.bind (Option.bind (Option.bind (Option.bind
       (stripPrefix (ustr ''due'') f) skipWs1) (stripPrefix (ustr ''after''))) skipWs1) dateOf"

text \<open>\<open>s.replace(/^#/, '')\<close>\<close>

fun dropHash :: "ustring \<Rightarrow> ustring" where
  "dropHash [] = []"
| "dropHash (c # cs) = (if c = 35 then cs else c # cs)"

definition dateBefore :: "ustring option \<Rightarrow> ustring \<Rightarrow> bool" where
  "dateBefore d x = (case d of None \<Rightarrow> False | Some v \<Rightarrow> strLess v x)"

definition dateAfter :: "ustring option \<Rightarrow> ustring \<Rightarrow> bool" where
  "dateAfter d x = (case d of None \<Rightarrow> False | Some v \<Rightarrow> strLess x v)"

definition tagsInclude :: "env \<Rightarrow> Task \<Rightarrow> ustring \<Rightarrow> bool" where
  "tagsInclude e task t =
     list_ex (\<lambda>tag. includesStr (toLowerCase e (dropHash tag)) t) (tags task)"

definition leafFilter :: "env \<Rightarrow> Task \<Rightarrow> ustring \<Rightarrow> bool" where
  "leafFilter e task flt =
    (if flt = ustr ''done'' then status task = Complete
     else if flt = ustr ''not done'' then status task = Incomplete \<or> status task = In_progress
     else if flt = ustr ''cancelled'' then status task = Cancelled
     else if flt = ustr ''in progress'' then status task = In_progress
     else if flt = ustr ''due today'' then dueDate task = Some (today e)
     else if flt = ustr ''due before today'' \<or> flt = ustr ''overdue''
       then dateBefore (dueDate task) (today e)
     else if flt = ustr ''due after today'' then dateAfter (dueDate task) (today e)
     else if flt = ustr ''no due date'' then dueDate task = None
     else if flt = ustr ''has due date'' then dueDate task \<noteq> None
     else if dueDateMatch flt \<noteq> None then dueDate task = dueDateMatch flt
     else if dueBeforeMatch flt \<noteq> None
       then dateBefore (dueDate task) (the (dueBeforeMatch flt))
     else if dueAfterMatch flt \<noteq> None
       then dateAfter (dueDate task) (the (dueAfterMatch flt))
     else if flt = ustr ''scheduled today'' then scheduledDate task = Some (today e)
     else if flt = ustr ''scheduled before today''
       then dateBefore (scheduledDate task) (today e)
     else if flt = ustr ''no scheduled date'' then scheduledDate task = None
     else if flt = ustr ''has scheduled date'' then scheduledDate task \<noteq> None
     else if flt = ustr ''starts today'' then startDate task = Some (today e)
     else if flt = ustr ''starts before today'' then dateBefore (startDate task) (today e)
     else if flt = ustr ''no start date'' then startDate task = None
     else if flt = ustr ''has start date'' then startDate task \<noteq> None
     else if flt = ustr ''no tags'' then tags task = []
     else if flt = ustr ''has tags'' then tags task \<noteq> []
     else if startsWith flt (ustr ''tag includes '')
       then tagsInclude e task (dropHash (trim (drop 13 flt)))
     else if startsWith flt (ustr ''tag include '')
       then tagsInclude e task (dropHash (trim (drop 12 flt)))
     else if startsWith flt (ustr ''tag does not include '')
       then \<not> tagsInclude e task (dropHash (trim (drop 21 flt)))
     else if startsWith flt (ustr ''tag do not include '')
       then \<not> tagsInclude e task (dropHash (trim (drop 19 flt)))
     else if startsWith flt (ustr ''path includes '')
       then includesStr (toLowerCase e (filePath task)) (toLowerCase e (trim (drop 14 flt)))
     else if startsWith flt (ustr ''path does not include '')
       then \<not> includesStr (toLowerCase e (filePath task)) (toLowerCase e (trim (drop 22 flt)))
     else if startsWith flt (ustr ''description includes '')
       then includesStr (toLowerCase e (description task))
              (toLowerCase e (trim (drop 21 flt)))
     else if startsWith flt (ustr ''description does not include '')
       then \<not> includesStr (toLowerCase e (description task))
                (toLowerCase e (trim (drop 29 flt)))
     else if startsWith flt (ustr ''priority is '')
       then (if trim (drop 12 flt) = ustr ''none'' then priority task = None
             else map_option priorityName (priority task) = Some (trim (drop 12 flt)))
     else if flt = ustr ''is recurring'' then recurrence task \<noteq> None
     else if flt = ustr ''is not recurring'' then recurrence task = None
     else includesStr (toLowerCase e (description task)) flt)"

lemma startsWith_length: "startsWith t p \<Longrightarrow> length p \<le> length t"
  by (induction t p rule: startsWith.induct) auto

lemma includesStr_length: "includesStr s sub \<Longrightarrow> length sub \<le> length s"
  by (induction s) (auto dest: startsWith_length)

lemma breakOn_None: "breakOn sep s = None \<Longrightarrow> \<not> includesStr s sep"
  by (induction s) (auto split: if_splits)

lemma split_piece_le: "p \<in> set (split s sep) \<Longrightarrow> length p \<le> length s"
proof (induction s sep rule: split.induct)
  case (1 s sep)
  show ?case
  proof (cases "sep = []")
    case True
    with "1.prems" show ?thesis by (cases s) (auto simp: split.simps)
  next
    case False
    show ?thesis
    proof (cases "breakOn sep s")
      case None
      with False "1.prems" show ?thesis by (simp add: split.simps)
    next
      case (Some ab)
      obtain a b where ab: "ab = (a, b)" by (cases ab)
      from Some ab have len: "length a + length sep + length b = length s"
        by (simp add: breakOn_length)
      from "1.prems" False Some ab have "p = a \<or> p \<in> set (split b sep)"
        by (simp add: split.simps)
      then show ?thesis
      proof
        assume "p = a"
        with len show ?thesis by simp
      next
        assume "p \<in> set (split b sep)"
        with "1.IH" [OF False Some ab [symmetric]] have "length p \<le> length b"
          by simp
        with len show ?thesis by simp
      qed
    qed
  qed
qed

lemma split_piece_less:
  assumes "sep \<noteq> []" and "includesStr s sep" and "p \<in> set (split s sep)"
  shows "length p < length s"
proof (cases "breakOn sep s")
  case None
  with assms(2) show ?thesis by (simp add: breakOn_None)
next
  case (Some ab)
  obtain a b where ab: "ab = (a, b)" by (cases ab)
  from Some ab have len: "length a + length sep + length b = length s"
    by (simp add: breakOn_length)
  from assms(1) have sep: "1 \<le> length sep" by (cases sep) simp_all
  from assms(1,3) Some ab have "p = a \<or> p \<in> set (split b sep)"
    by (simp add: split.simps)
  then show ?thesis
  proof
    assume "p = a"
    then have "length p = length a" by simp
    with len sep show ?thesis by linarith
  next
    assume "p \<in> set (split b sep)"
    then have "length p \<le> length b" by (rule split_piece_le)
    with len sep show ?thesis by linarith
  qed
qed

lemma length_trim: "length (trim s) \<le> length s"
proof -
  have "length (dropWhile isWhiteSpace (rev (dropWhile isWhiteSpace s)))
          \<le> length (rev (dropWhile isWhiteSpace s))"
    by (rule length_dropWhile_le)
  also have "\<dots> \<le> length s"
    by (simp add: length_dropWhile_le)
  finally show ?thesis by (simp add: trim_def)
qed

lemma startsWith_append: "startsWith s p \<Longrightarrow> p @ drop (length p) s = s"
  by (induction s p rule: startsWith.induct) auto

lemma breakOn_append: "breakOn sep s = Some (a, b) \<Longrightarrow> a @ sep @ b = s"
proof (induction s arbitrary: a)
  case Nil
  then show ?case by (simp split: if_splits)
next
  case (Cons c cs)
  show ?case
  proof (cases "startsWith (c # cs) sep")
    case True
    with Cons.prems have "a = []" "b = drop (length sep) (c # cs)" by simp_all
    with startsWith_append [OF True] show ?thesis by simp
  next
    case False
    with Cons.prems obtain a' where "breakOn sep cs = Some (a', b)" and "a = c # a'"
      by auto
    with Cons.IH [of a'] show ?thesis by simp
  qed
qed

lemma split_piece_sublist: "p \<in> set (split s sep) \<Longrightarrow> sublist p s"
proof (induction s sep rule: split.induct)
  case (1 s sep)
  show ?case
  proof (cases "sep = []")
    case True
    with "1.prems" obtain c where p: "p = [c]" and "c \<in> set s" by (auto simp: split.simps)
    then obtain ys zs where "s = ys @ c # zs" by (blast dest: split_list)
    then have "s = ys @ p @ zs" by (simp add: p)
    then show ?thesis unfolding sublist_def by blast
  next
    case False
    show ?thesis
    proof (cases "breakOn sep s")
      case None
      with False "1.prems" show ?thesis by (simp add: split.simps)
    next
      case (Some ab)
      obtain a b where ab: "ab = (a, b)" by (cases ab)
      from Some ab have "breakOn sep s = Some (a, b)" by simp
      then have s: "s = a @ sep @ b" by (rule breakOn_append [symmetric])
      from "1.prems" False Some ab have "p = a \<or> p \<in> set (split b sep)"
        by (simp add: split.simps)
      then show ?thesis
      proof
        assume "p = a"
        then have "s = [] @ p @ sep @ b" using s by simp
        then show ?thesis unfolding sublist_def by blast
      next
        assume "p \<in> set (split b sep)"
        with "1.IH" [OF False Some ab [symmetric]] have "sublist p b" by simp
        then obtain x y where "b = x @ p @ y" by (auto simp: sublist_def)
        with s have "s = (a @ sep @ x) @ p @ y" by simp
        then show ?thesis unfolding sublist_def by blast
      qed
    qed
  qed
qed

lemma sublist_trim: "sublist (trim s) s"
proof -
  have "sublist (dropWhile isWhiteSpace (rev (dropWhile isWhiteSpace s)))
          (rev (dropWhile isWhiteSpace s))" by simp
  then have "sublist (trim s) (dropWhile isWhiteSpace s)"
    by (simp add: trim_def sublist_rev_left)
  then show ?thesis by (rule sublist_order.order.trans) simp
qed

text \<open>A part of a normalised filter is lower-cased already.\<close>

lemma isLowerCasing_env: "isLowerCasing (Rep_lowerCasing (lowerCase e))"
  using Rep_lowerCasing [of "lowerCase e"] by simp

lemma toLowerCase_part:
  assumes "sublist p (toLowerCase e s)"
  shows "toLowerCase e p = p"
proof -
  have "\<forall>s p. sublist p (Rep_lowerCasing (lowerCase e) s)
          \<longrightarrow> Rep_lowerCasing (lowerCase e) p = p"
    using isLowerCasing_env [of e] unfolding isLowerCasing_def by (rule conjunct2)
  with assms show ?thesis unfolding toLowerCase_def by blast
qed

lemma toLowerCase_ascii:
  assumes "\<forall>c \<in> set s. c < 128"
  shows "toLowerCase e s = lowerAscii s"
proof -
  have "\<forall>s. (\<forall>c \<in> set s. c < 128) \<longrightarrow> Rep_lowerCasing (lowerCase e) s = lowerAscii s"
    using isLowerCasing_env [of e] unfolding isLowerCasing_def by (rule conjunct1)
  with assms show ?thesis unfolding toLowerCase_def by blast
qed

lemma normalize_part:
  assumes "sublist p (normalize e f)"
  shows "length (normalize e p) \<le> length p"
proof -
  have "sublist (normalize e f) (toLowerCase e f)"
    unfolding normalize_def by (rule sublist_trim)
  with assms have "sublist p (toLowerCase e f)" by (rule sublist_order.order.trans)
  then have "toLowerCase e p = p" by (rule toLowerCase_part)
  then have "normalize e p = trim p" by (simp add: normalize_def)
  then show ?thesis by (simp add: length_trim)
qed

function applyFilter :: "env \<Rightarrow> Task \<Rightarrow> ustring \<Rightarrow> bool" where
  "applyFilter e task flt =
    (if includesStr (normalize e flt) (ustr '' and '')
       then list_all (\<lambda>part. applyFilter e task (trim part))
              (split (normalize e flt) (ustr '' and ''))
     else if includesStr (normalize e flt) (ustr '' or '')
       then list_ex (\<lambda>part. applyFilter e task (trim part))
              (split (normalize e flt) (ustr '' or ''))
     else if startsWith (normalize e flt) (ustr ''not '')
             \<and> normalize e flt \<noteq> ustr ''not done''
       then \<not> applyFilter e task (drop 4 (normalize e flt))
     else leafFilter e task (normalize e flt))"
  by pat_completeness auto
termination
proof (relation "measure (\<lambda>(e, task, flt). length (normalize e flt))")
  show "wf (measure (\<lambda>(e, task, flt). length (normalize e flt)))" by simp
next
  fix e :: env and task :: Task and flt part :: ustring
  assume inc: "includesStr (normalize e flt) (ustr '' and '')"
    and part: "part \<in> set (split (normalize e flt) (ustr '' and ''))"
  from part have "sublist part (normalize e flt)" by (rule split_piece_sublist)
  with sublist_trim have "sublist (trim part) (normalize e flt)"
    by (rule sublist_order.order.trans)
  then have "length (normalize e (trim part)) \<le> length (trim part)" by (rule normalize_part)
  also have "\<dots> \<le> length part" by (rule length_trim)
  also have "\<dots> < length (normalize e flt)"
    using inc part by (intro split_piece_less) (simp_all add: ustr_def)
  finally show "((e, task, trim part), (e, task, flt))
                  \<in> measure (\<lambda>(e, task, flt). length (normalize e flt))" by simp
next
  fix e :: env and task :: Task and flt part :: ustring
  assume inc: "includesStr (normalize e flt) (ustr '' or '')"
    and part: "part \<in> set (split (normalize e flt) (ustr '' or ''))"
  from part have "sublist part (normalize e flt)" by (rule split_piece_sublist)
  with sublist_trim have "sublist (trim part) (normalize e flt)"
    by (rule sublist_order.order.trans)
  then have "length (normalize e (trim part)) \<le> length (trim part)" by (rule normalize_part)
  also have "\<dots> \<le> length part" by (rule length_trim)
  also have "\<dots> < length (normalize e flt)"
    using inc part by (intro split_piece_less) (simp_all add: ustr_def)
  finally show "((e, task, trim part), (e, task, flt))
                  \<in> measure (\<lambda>(e, task, flt). length (normalize e flt))" by simp
next
  fix e :: env and task :: Task and flt :: ustring
  assume "startsWith (normalize e flt) (ustr ''not '')
            \<and> normalize e flt \<noteq> ustr ''not done''"
  then have "4 \<le> length (normalize e flt)"
    by (auto dest: startsWith_length simp: ustr_def)
  then have less: "length (drop 4 (normalize e flt)) < length (normalize e flt)" by simp
  have "sublist (drop 4 (normalize e flt)) (normalize e flt)"
    by (rule suffix_imp_sublist) (rule suffix_drop)
  then have "length (normalize e (drop 4 (normalize e flt)))
      \<le> length (drop 4 (normalize e flt))" by (rule normalize_part)
  with less show "((e, task, drop 4 (normalize e flt)), (e, task, flt))
                  \<in> measure (\<lambda>(e, task, flt). length (normalize e flt))" by simp
qed

declare applyFilter.simps [simp del]

section \<open>The task collection query\<close>

definition queryFilters :: "ustring \<Rightarrow> ustring list" where
  "queryFilters queryText =
     filter (\<lambda>line. line \<noteq> [] \<and> \<not> startsWith line [35]) (map trim (split queryText [10]))"

text \<open>The loop over the filters, which leaves at the first filter that fails.\<close>

fun passesAll :: "env \<Rightarrow> Task \<Rightarrow> ustring list \<Rightarrow> bool" where
  "passesAll e task [] = True"
| "passesAll e task (f # fs) = (if \<not> applyFilter e task f then False else passesAll e task fs)"

definition queryTasks :: "env \<Rightarrow> Task list \<Rightarrow> ustring \<Rightarrow> Task list" where
  "queryTasks e tasks queryText =
     filter (\<lambda>task. passesAll e task (queryFilters queryText)) tasks"

section \<open>The line parser\<close>

text \<open>
  The metadata glyphs, as the code points of the literals in the source: the calendar
  U+1F4C5 and the spiral calendar U+1F5D3 with its variation selector U+FE0F for the due
  date, the hourglass U+23F3 for the scheduled date, the departing plane U+1F6EB for the
  start date, the heavy plus U+2795 for the date of creation, the repeat sign U+1F501 for
  the recurrence, and U+23EB, U+1F53C, U+1F53D and U+23EC for the priorities.
\<close>

definition glyphDue :: uchar where "glyphDue = 128197"
definition glyphDueAlt :: uchar where "glyphDueAlt = 128467"
definition variationSelector :: uchar where "variationSelector = 65039"
definition glyphScheduled :: uchar where "glyphScheduled = 9203"
definition glyphStart :: uchar where "glyphStart = 128747"
definition glyphCreated :: uchar where "glyphCreated = 10133"
definition glyphRecurrence :: uchar where "glyphRecurrence = 128257"
definition glyphHigh :: uchar where "glyphHigh = 9195"
definition glyphMedium :: uchar where "glyphMedium = 128316"
definition glyphLow :: uchar where "glyphLow = 128317"
definition glyphLowest :: uchar where "glyphLowest = 9196"

text \<open>
  The character class of \<open>dueDateRegex\<close> holds the three code points of its two
  glyphs; with the \<open>u\<close> flag each of them is one member of the class.
\<close>

definition isDueGlyph :: "uchar \<Rightarrow> bool" where
  "isDueGlyph c \<longleftrightarrow> c = glyphDue \<or> c = glyphDueAlt \<or> c = variationSelector"

definition isPriorityGlyph :: "uchar \<Rightarrow> bool" where
  "isPriorityGlyph c \<longleftrightarrow> c = glyphHigh \<or> c = glyphMedium \<or> c = glyphLow \<or> c = glyphLowest"

text \<open>\<open>\s?(\d{4}-\d{2}-\d{2})\<close> at the start of a string: group 1.\<close>

fun optWsDate :: "ustring \<Rightarrow> ustring option" where
  "optWsDate [] = None"
| "optWsDate (c # cs) =
     (if isWhiteSpace c then dateOf (take 10 cs) else dateOf (take 10 (c # cs)))"

text \<open>
  The four date expressions are a glyph followed by \<open>\s?(\d{4}-\d{2}-\d{2})\<close>.
  \<open>dateRegex g s\<close> is group 1 of the leftmost match in \<open>s\<close>, for the glyphs \<open>g\<close>.
\<close>

fun dateRegex :: "(uchar \<Rightarrow> bool) \<Rightarrow> ustring \<Rightarrow> ustring option" where
  "dateRegex g [] = None"
| "dateRegex g (c # cs) =
     (if g c \<and> optWsDate cs \<noteq> None then optWsDate cs else dateRegex g cs)"

definition dueDateRegex :: "ustring \<Rightarrow> ustring option" where
  "dueDateRegex = dateRegex isDueGlyph"

definition scheduledDateRegex :: "ustring \<Rightarrow> ustring option" where
  "scheduledDateRegex = dateRegex (\<lambda>c. c = glyphScheduled)"

definition startDateRegex :: "ustring \<Rightarrow> ustring option" where
  "startDateRegex = dateRegex (\<lambda>c. c = glyphStart)"

definition createdDateRegex :: "ustring \<Rightarrow> ustring option" where
  "createdDateRegex = dateRegex (\<lambda>c. c = glyphCreated)"

text \<open>\<open>\s?\<close> at the start of a string.\<close>

fun dropOptWs :: "ustring \<Rightarrow> ustring" where
  "dropOptWs [] = []"
| "dropOptWs (c # cs) = (if isWhiteSpace c then cs else c # cs)"

text \<open>
  \<open>recurrenceRegex\<close>: the glyph, \<open>\s?\<close>, then the shortest text that is followed by
  white space or by the end. Group 1 of the leftmost match.
\<close>

fun recurrenceRegex :: "ustring \<Rightarrow> ustring option" where
  "recurrenceRegex [] = None"
| "recurrenceRegex (c # cs) =
     (if c = glyphRecurrence then Some (takeWhile (\<lambda>x. \<not> isWhiteSpace x) (dropOptWs cs))
      else recurrenceRegex cs)"

text \<open>The leftmost match of the priority expression, which tries the doubled glyph first.\<close>

fun priorityRegex :: "ustring \<Rightarrow> priority option" where
  "priorityRegex [] = None"
| "priorityRegex (c # cs) =
     (if c = glyphHigh then (if startsWith cs [glyphHigh] then Some Highest else Some High)
      else if c = glyphMedium then Some Medium
      else if c = glyphLow then Some Low
      else if c = glyphLowest then Some Lowest
      else priorityRegex cs)"

text \<open>The class \<open>[^ !@#$%^&*(),.?":{}|<>]\<close> of \<open>hashTagsRegex\<close>.\<close>

definition isTagChar :: "uchar \<Rightarrow> bool" where
  "isTagChar c \<longleftrightarrow>
     c \<notin> set [32, 33, 64, 35, 36, 37, 94, 38, 42, 40, 41, 44, 46, 63, 34, 58, 123, 125, 124,
               60, 62]"

text \<open>
  All matches of \<open>hashTagsRegex\<close>, from left to right. A match starts at the very
  beginning with \<open>#\<close>, or anywhere with a white space before the \<open>#\<close>; the flag says
  whether the position is the beginning. The search goes on behind a match.
\<close>

function hashTagsRegex :: "bool \<Rightarrow> ustring \<Rightarrow> ustring list" where
  "hashTagsRegex atStart [] = []"
| "hashTagsRegex atStart (c # cs) =
     (if atStart \<and> c = 35 \<and> takeWhile isTagChar cs \<noteq> []
        then (c # takeWhile isTagChar cs) # hashTagsRegex False (dropWhile isTagChar cs)
      else if isWhiteSpace c \<and> startsWith cs [35] \<and> takeWhile isTagChar (tl cs) \<noteq> []
        then (c # 35 # takeWhile isTagChar (tl cs))
               # hashTagsRegex False (dropWhile isTagChar (tl cs))
      else hashTagsRegex False cs)"
  by pat_completeness auto
termination
proof (relation "measure (\<lambda>(atStart, s). length s)")
  show "wf (measure (\<lambda>(atStart, s). length s))" by simp
next
  fix atStart :: bool and c :: uchar and cs :: ustring
  have "length (dropWhile isTagChar cs) \<le> length cs" by (rule length_dropWhile_le)
  then show "((False, dropWhile isTagChar cs), (atStart, c # cs))
               \<in> measure (\<lambda>(atStart, s). length s)" by simp
next
  fix atStart :: bool and c :: uchar and cs :: ustring
  have "length (dropWhile isTagChar (tl cs)) \<le> length (tl cs)" by (rule length_dropWhile_le)
  then show "((False, dropWhile isTagChar (tl cs)), (atStart, c # cs))
               \<in> measure (\<lambda>(atStart, s). length s)" by simp
next
  fix atStart :: bool and c :: uchar and cs :: ustring
  show "((False, cs), (atStart, c # cs)) \<in> measure (\<lambda>(atStart, s). length s)" by simp
qed

text \<open>\<open>([-*+]|[0-9]+[.)])\<close> at the start of a string: the marker and the rest.\<close>

definition listMarker :: "ustring \<Rightarrow> (ustring \<times> ustring) option" where
  "listMarker s =
     (case s of
        [] \<Rightarrow> None
      | c # cs \<Rightarrow>
          if c = 45 \<or> c = 42 \<or> c = 43 then Some ([c], cs)
          else (case dropWhile isDigit s of
                  [] \<Rightarrow> None
                | p # r \<Rightarrow>
                    if takeWhile isDigit s \<noteq> [] \<and> (p = 46 \<or> p = 41)
                    then Some (takeWhile isDigit s @ [p], r) else None))"

text \<open>The class \<open>[\s\t>]\<close>.\<close>

definition isIndentChar :: "uchar \<Rightarrow> bool" where
  "isIndentChar c \<longleftrightarrow> isWhiteSpace c \<or> c = 62"

text \<open>
  \<open>taskRegex\<close>, \<open>/^([\s\t>]*)([-*+]|[0-9]+[.)]) +\[(.)\] *(.*)/u\<close>: the four groups of
  the match. No two neighbouring parts of the expression can match the same character,
  so that the greedy match is the only one.
\<close>

definition taskRegex :: "ustring \<Rightarrow> (ustring \<times> ustring \<times> uchar \<times> ustring) option" where
  "taskRegex line =
     (case listMarker (dropWhile isIndentChar line) of
        None \<Rightarrow> None
      | Some (marker, r) \<Rightarrow>
          (case r of
             [] \<Rightarrow> None
           | sp # r1 \<Rightarrow>
               if sp \<noteq> 32 then None
               else (case dropWhile (\<lambda>c. c = 32) r1 of
                       lb # st # rb # r2 \<Rightarrow>
                         if lb = 91 \<and> \<not> isLineTerminator st \<and> rb = 93
                         then Some (takeWhile isIndentChar line, marker, st,
                                takeWhile (\<lambda>c. \<not> isLineTerminator c)
                                  (dropWhile (\<lambda>c. c = 32) r2))
                         else None
                     | _ \<Rightarrow> None)))"

definition statusOf :: "uchar \<Rightarrow> status" where
  "statusOf statusChar =
     (if statusChar = 120 \<or> statusChar = 88 then Complete
      else if statusChar = 45 then Cancelled
      else if statusChar = 47 then In_progress
      else Incomplete)"

text \<open>The decimal numeral of an integer, as a template literal prints a line number.\<close>

fun showNat :: "nat \<Rightarrow> ustring" where
  "showNat n = (if n < 10 then [48 + n] else showNat (n div 10) @ [48 + n mod 10])"

declare showNat.simps [simp del]

definition showInt :: "int \<Rightarrow> ustring" where
  "showInt i = (if i < 0 then 45 # showNat (nat (- i)) else showNat (nat i))"

definition parseTaskLine :: "ustring \<Rightarrow> ustring \<Rightarrow> int \<Rightarrow> Task option" where
  "parseTaskLine line path lineNo =
     (case taskRegex line of
        None \<Rightarrow> None
      | Some (indent, marker, statusChar, content) \<Rightarrow>
          Some \<lparr>task_id = path @ [58] @ showInt lineNo,
                description = trim content,
                status = statusOf statusChar,
                statusSymbol = statusChar,
                filePath = path,
                lineNumber = lineNo,
                tags = filter (\<lambda>tag. tag \<noteq> []) (map trim (hashTagsRegex True (trim content))),
                dueDate = dueDateRegex (trim content),
                scheduledDate = scheduledDateRegex (trim content),
                createdDate = createdDateRegex (trim content),
                startDate = startDateRegex (trim content),
                priority = priorityRegex (trim content),
                recurrence = recurrenceRegex (trim content),
                originalMarkdown = line\<rparr>)"

text \<open>The glyphs of a priority, as \<open>priorityEmojis\<close> lists them.\<close>

fun priorityGlyphs :: "priority \<Rightarrow> ustring" where
  "priorityGlyphs Highest = [glyphHigh, glyphHigh]"
| "priorityGlyphs High = [glyphHigh]"
| "priorityGlyphs Medium = [glyphMedium]"
| "priorityGlyphs Low = [glyphLow]"
| "priorityGlyphs Lowest = [glyphLowest]"

text \<open>
  \<open>glyphWith c d s\<close>: the glyph \<open>c\<close>, at most one white space and the text \<open>d\<close> stand
  next to each other, in this order, somewhere in \<open>s\<close>.
\<close>

definition glyphWith :: "uchar \<Rightarrow> ustring \<Rightarrow> ustring \<Rightarrow> bool" where
  "glyphWith c d s \<longleftrightarrow> sublist (c # d) s \<or> (\<exists>w. isWhiteSpace w \<and> sublist (c # w # d) s)"

text \<open>The characters of a date.\<close>

definition isDateChar :: "uchar \<Rightarrow> bool" where
  "isDateChar c \<longleftrightarrow> isDigit c \<or> c = 45"

section \<open>The markdown builder\<close>

text \<open>\<open>parts.join(sep)\<close>\<close>

fun joinWith :: "ustring \<Rightarrow> ustring list \<Rightarrow> ustring" where
  "joinWith sep [] = []"
| "joinWith sep [x] = x"
| "joinWith sep (x # y # ys) = x @ sep @ joinWith sep (y # ys)"

text \<open>
  A table that is written as an object literal answers, besides its own keys, to the
  names that every object inherits. Under such a name it yields a built-in function or,
  under \<open>__proto__\<close>, the prototype object; both count as present, and a template
  literal prints them as below (a built-in function in the form of the host's engine).
\<close>

definition nativeFunction :: "ustring \<Rightarrow> ustring" where
  "nativeFunction name = ustr ''function '' @ name @ ustr ''() { [native code] }''"

definition objectPrototype :: "ustring \<Rightarrow> ustring option" where
  "objectPrototype name =
     (if name = ustr ''constructor'' then Some (nativeFunction (ustr ''Object''))
      else if name = ustr ''__proto__'' then Some (ustr ''[object Object]'')
      else if name \<in> set (map ustr [''hasOwnProperty'', ''isPrototypeOf'',
                ''propertyIsEnumerable'', ''toLocaleString'', ''toString'', ''valueOf'',
                ''__defineGetter__'', ''__defineSetter__'', ''__lookupGetter__'',
                ''__lookupSetter__''])
        then Some (nativeFunction name)
      else None)"

text \<open>The table \<open>priorityEmojis\<close>, looked up by the name of the priority.\<close>

definition priorityEmojis :: "ustring \<Rightarrow> ustring option" where
  "priorityEmojis name =
     (if name = ustr ''highest'' then Some [glyphHigh, glyphHigh]
      else if name = ustr ''high'' then Some [glyphHigh]
      else if name = ustr ''medium'' then Some [glyphMedium]
      else if name = ustr ''low'' then Some [glyphLow]
      else if name = ustr ''lowest'' then Some [glyphLowest]
      else objectPrototype name)"

text \<open>
  The pieces that \<open>buildTaskMarkdown\<close> and the \<open>update_task\<close> branch append, in the same
  words in both places. A field is appended when it is truthy: present and not empty.
\<close>

definition prioritySuffix :: "ustring option \<Rightarrow> ustring" where
  "prioritySuffix p =
     (case p of
        None \<Rightarrow> []
      | Some name \<Rightarrow>
          if name = [] then []
          else (case priorityEmojis name of None \<Rightarrow> [] | Some g \<Rightarrow> 32 # g))"

definition fieldSuffix :: "uchar \<Rightarrow> ustring option \<Rightarrow> ustring" where
  "fieldSuffix glyph v =
     (case v of None \<Rightarrow> [] | Some x \<Rightarrow> if x = [] then [] else [32, glyph, 32] @ x)"

definition formatTag :: "ustring \<Rightarrow> ustring" where
  "formatTag tag = (if startsWith tag [35] then tag else 35 # tag)"

definition tagsSuffix :: "ustring list option \<Rightarrow> ustring" where
  "tagsSuffix ts =
     (case ts of
        None \<Rightarrow> []
      | Some l \<Rightarrow> if l = [] then [] else 32 # joinWith [32] (map formatTag l))"

record buildArgs =
  bDescription :: ustring
  bDueDate :: "ustring option"
  bScheduledDate :: "ustring option"
  bStartDate :: "ustring option"
  bPriority :: "ustring option"
  bTags :: "ustring list option"
  bRecurrence :: "ustring option"

definition buildTaskMarkdown :: "buildArgs \<Rightarrow> ustring" where
  "buildTaskMarkdown args =
     ustr ''- [ ] '' @ bDescription args
       @ prioritySuffix (bPriority args)
       @ fieldSuffix glyphRecurrence (bRecurrence args)
       @ fieldSuffix glyphStart (bStartDate args)
       @ fieldSuffix glyphScheduled (bScheduledDate args)
       @ fieldSuffix glyphDue (bDueDate args)
       @ tagsSuffix (bTags args)"

subsection \<open>Rebuilding a line in \<open>update_task\<close>\<close>

text \<open>
  The replacements that clear the old description. Each of them removes all matches of
  its expression, from left to right, and goes on behind a match.
\<close>

function removeDates :: "(uchar \<Rightarrow> bool) \<Rightarrow> ustring \<Rightarrow> ustring" where
  "removeDates g [] = []"
| "removeDates g (c # cs) =
     (if g c \<and> optWsDate cs \<noteq> None then removeDates g (drop 10 (dropOptWs cs))
      else c # removeDates g cs)"
  by pat_completeness auto
termination
proof (relation "measure (\<lambda>(g, s). length s)")
  show "wf (measure (\<lambda>(g, s). length s))" by simp
next
  fix g :: "uchar \<Rightarrow> bool" and c :: uchar and cs :: ustring
  have "length (dropOptWs cs) \<le> length cs" by (cases cs) auto
  then show "((g, drop 10 (dropOptWs cs)), (g, c # cs)) \<in> measure (\<lambda>(g, s). length s)"
    by simp
next
  fix g :: "uchar \<Rightarrow> bool" and c :: uchar and cs :: ustring
  show "((g, cs), (g, c # cs)) \<in> measure (\<lambda>(g, s). length s)" by simp
qed

function removeRecurrence :: "ustring \<Rightarrow> ustring" where
  "removeRecurrence [] = []"
| "removeRecurrence (c # cs) =
     (if c = glyphRecurrence
        then removeRecurrence (dropWhile (\<lambda>x. \<not> isWhiteSpace x) (dropOptWs cs))
      else c # removeRecurrence cs)"
  by pat_completeness auto
termination
proof (relation "measure length")
  show "wf (measure length)" by simp
next
  fix c :: uchar and cs :: ustring
  have "length (dropWhile (\<lambda>x. \<not> isWhiteSpace x) (dropOptWs cs)) \<le> length (dropOptWs cs)"
    by (rule length_dropWhile_le)
  also have "\<dots> \<le> length cs" by (cases cs) auto
  finally show "(dropWhile (\<lambda>x. \<not> isWhiteSpace x) (dropOptWs cs), c # cs) \<in> measure length"
    by simp
next
  fix c :: uchar and cs :: ustring
  show "(cs, c # cs) \<in> measure length" by simp
qed

text \<open>Every match of the priority expression is one or two priority glyphs.\<close>

definition removePriority :: "ustring \<Rightarrow> ustring" where
  "removePriority s = filter (\<lambda>c. \<not> isPriorityGlyph c) s"

text \<open>\<open>/(^|\s)#[^\s]+/g\<close>; the flag says whether the position is the beginning.\<close>

function removeTags :: "bool \<Rightarrow> ustring \<Rightarrow> ustring" where
  "removeTags atStart [] = []"
| "removeTags atStart (c # cs) =
     (if atStart \<and> c = 35 \<and> takeWhile (\<lambda>x. \<not> isWhiteSpace x) cs \<noteq> []
        then removeTags False (dropWhile (\<lambda>x. \<not> isWhiteSpace x) cs)
      else if isWhiteSpace c \<and> startsWith cs [35]
                \<and> takeWhile (\<lambda>x. \<not> isWhiteSpace x) (tl cs) \<noteq> []
        then removeTags False (dropWhile (\<lambda>x. \<not> isWhiteSpace x) (tl cs))
      else c # removeTags False cs)"
  by pat_completeness auto
termination
proof (relation "measure (\<lambda>(atStart, s). length s)")
  show "wf (measure (\<lambda>(atStart, s). length s))" by simp
next
  fix atStart :: bool and c :: uchar and cs :: ustring
  have "length (dropWhile (\<lambda>x. \<not> isWhiteSpace x) cs) \<le> length cs"
    by (rule length_dropWhile_le)
  then show "((False, dropWhile (\<lambda>x. \<not> isWhiteSpace x) cs), (atStart, c # cs))
               \<in> measure (\<lambda>(atStart, s). length s)" by simp
next
  fix atStart :: bool and c :: uchar and cs :: ustring
  have "length (dropWhile (\<lambda>x. \<not> isWhiteSpace x) (tl cs)) \<le> length (tl cs)"
    by (rule length_dropWhile_le)
  then show "((False, dropWhile (\<lambda>x. \<not> isWhiteSpace x) (tl cs)), (atStart, c # cs))
               \<in> measure (\<lambda>(atStart, s). length s)" by simp
next
  fix atStart :: bool and c :: uchar and cs :: ustring
  show "((False, cs), (atStart, c # cs)) \<in> measure (\<lambda>(atStart, s). length s)" by simp
qed

definition stripMetadata :: "ustring \<Rightarrow> ustring" where
  "stripMetadata d =
     trim (removeTags True (removePriority (removeRecurrence
       (removeDates (\<lambda>c. c = glyphCreated) (removeDates (\<lambda>c. c = glyphStart)
         (removeDates (\<lambda>c. c = glyphScheduled) (removeDates isDueGlyph d)))))))"

text \<open>The table \<open>statusMap\<close>, looked up by the name of the status.\<close>

definition statusMap :: "ustring \<Rightarrow> ustring option" where
  "statusMap name =
     (if name = ustr ''incomplete'' then Some [32]
      else if name = ustr ''complete'' then Some [120]
      else if name = ustr ''cancelled'' then Some [45]
      else if name = ustr ''in_progress'' then Some [47]
      else objectPrototype name)"

record updateArgs =
  uDescription :: "ustring option"
  uStatus :: "ustring option"
  uDueDate :: "ustring option"
  uScheduledDate :: "ustring option"
  uStartDate :: "ustring option"
  uPriority :: "ustring option"
  uTags :: "ustring list option"
  uRecurrence :: "ustring option"

text \<open>An argument that is given replaces the field, the empty string removing it.\<close>

definition override :: "ustring option \<Rightarrow> ustring option \<Rightarrow> ustring option" where
  "override arg current =
     (case arg of None \<Rightarrow> current | Some v \<Rightarrow> if v = [] then None else Some v)"

text \<open>\<open>/^([\s\t>]*)([-*+]|[0-9]+[.)])/\<close> on the current line: indentation and marker.\<close>

definition indentMatch :: "ustring \<Rightarrow> ustring \<times> ustring" where
  "indentMatch line =
     (case listMarker (dropWhile isIndentChar line) of
        None \<Rightarrow> ([], [45])
      | Some (marker, r) \<Rightarrow> (takeWhile isIndentChar line, marker))"

text \<open>
  The new line of \<open>update_task\<close>, from the arguments, the current line and the task
  parsed from it.
\<close>

definition updatedTaskMarkdown :: "updateArgs \<Rightarrow> ustring \<Rightarrow> Task \<Rightarrow> ustring" where
  "updatedTaskMarkdown args currentLine currentTask =
     fst (indentMatch currentLine) @ snd (indentMatch currentLine)
       @ [32, 91]
       @ (case uStatus args of
            None \<Rightarrow> [statusSymbol currentTask]
          | Some name \<Rightarrow>
              (case statusMap name of None \<Rightarrow> [statusSymbol currentTask] | Some c \<Rightarrow> c))
       @ [93, 32]
       @ (case uDescription args of
            None \<Rightarrow> stripMetadata (description currentTask)
          | Some d \<Rightarrow> d)
       @ prioritySuffix
           (case uPriority args of
              None \<Rightarrow> map_option priorityName (priority currentTask)
            | Some p \<Rightarrow> if p = ustr ''none'' then None else Some p)
       @ fieldSuffix glyphRecurrence (override (uRecurrence args) (recurrence currentTask))
       @ fieldSuffix glyphStart (override (uStartDate args) (startDate currentTask))
       @ fieldSuffix glyphScheduled (override (uScheduledDate args) (scheduledDate currentTask))
       @ fieldSuffix glyphDue (override (uDueDate args) (dueDate currentTask))
       @ tagsSuffix (Some (case uTags args of None \<Rightarrow> tags currentTask | Some ts \<Rightarrow> ts))"

definition noOverrides :: updateArgs where
  "noOverrides = \<lparr>uDescription = None, uStatus = None, uDueDate = None,
     uScheduledDate = None, uStartDate = None, uPriority = None, uTags = None,
     uRecurrence = None\<rparr>"

subsection \<open>Field sets that come back unchanged\<close>

text \<open>
  The metadata glyphs are the code points that the expressions of the parser look for:
  the glyphs of the four dates, of the recurrence and of the priorities, and with them
  the variation selector U+FE0F, which the due-date expression accepts by itself, also
  behind another emoji. A plain character is no metadata glyph, no \<open>#\<close> and no line
  terminator; a token character is a plain character that is no white space.
\<close>

definition isMetadataGlyph :: "uchar \<Rightarrow> bool" where
  "isMetadataGlyph c \<longleftrightarrow>
     isDueGlyph c \<or> c = glyphScheduled \<or> c = glyphStart \<or> c = glyphCreated
       \<or> c = glyphRecurrence \<or> isPriorityGlyph c"

definition isPlainChar :: "uchar \<Rightarrow> bool" where
  "isPlainChar c \<longleftrightarrow> \<not> isMetadataGlyph c \<and> c \<noteq> 35 \<and> \<not> isLineTerminator c"

definition isTokenChar :: "uchar \<Rightarrow> bool" where
  "isTokenChar c \<longleftrightarrow> isPlainChar c \<and> \<not> isWhiteSpace c"

text \<open>A date argument that is given is empty or of the form \<open>YYYY-MM-DD\<close>.\<close>

definition okDate :: "ustring option \<Rightarrow> bool" where
  "okDate v = (case v of None \<Rightarrow> True | Some x \<Rightarrow> x = [] \<or> isDate x)"

definition isPriorityName :: "ustring \<Rightarrow> bool" where
  "isPriorityName name \<longleftrightarrow>
     name \<in> set (map ustr [''highest'', ''high'', ''medium'', ''low'', ''lowest''])"

text \<open>
  \<open>canonicalArgs\<close>: the description is not empty, neither starts nor ends with white
  space and consists of plain characters; the priority, if given, is one of the five
  names; the recurrence, if given, consists of token characters; the dates are as above;
  every tag is, behind an optional \<open>#\<close>, a non-empty run of token characters that the
  tag expression accepts. These conditions are sufficient for a line to come back
  unchanged, not necessary.
\<close>

definition canonicalArgs :: "buildArgs \<Rightarrow> bool" where
  "canonicalArgs F \<longleftrightarrow>
     bDescription F \<noteq> [] \<and> \<not> isWhiteSpace (hd (bDescription F))
       \<and> \<not> isWhiteSpace (last (bDescription F))
       \<and> (\<forall>c \<in> set (bDescription F). isPlainChar c)
       \<and> (case bPriority F of None \<Rightarrow> True | Some name \<Rightarrow> isPriorityName name)
       \<and> (case bRecurrence F of None \<Rightarrow> True | Some r \<Rightarrow> \<forall>c \<in> set r. isTokenChar c)
       \<and> okDate (bStartDate F) \<and> okDate (bScheduledDate F) \<and> okDate (bDueDate F)
       \<and> (case bTags F of
             None \<Rightarrow> True
           | Some l \<Rightarrow> \<forall>t \<in> set l. dropHash t \<noteq> []
                         \<and> (\<forall>c \<in> set (dropHash t). isTagChar c \<and> isTokenChar c))"

section \<open>The identifier codec\<close>

text \<open>
  A number that is not NaN: an integer that a double holds, or one of the two infinities.
  NaN is \<open>None\<close> where it can occur, and the negative zero is not told from zero (both
  print as \<open>0\<close> and compare alike).
\<close>

datatype number = Num int | PlusInfinity | MinusInfinity

text \<open>
  The double nearest to an integer. Up to 53 bits the integer is kept; a longer one
  loses its low bits, rounded to the nearest value with 53 bits and, half way, to the
  one with an even last bit; from \<open>2^1024\<close> on the result is infinite. \<open>bitLength\<close>
  is the number of bits of a natural number.
\<close>

fun bitLength :: "nat \<Rightarrow> nat" where
  "bitLength n = (if n = 0 then 0 else Suc (bitLength (n div 2)))"

declare bitLength.simps [simp del]

definition roundToDouble :: "nat \<Rightarrow> nat option" where
  "roundToDouble m =
     (if bitLength m \<le> 53 then Some m
      else (let e = bitLength m - 53;
                q = m div 2 ^ e;
                r = m mod 2 ^ e;
                q' = (if 2 ^ e < 2 * r \<or> (2 * r = 2 ^ e \<and> odd q) then q + 1 else q)
            in if 2 ^ 1024 \<le> q' * 2 ^ e then None else Some (q' * 2 ^ e)))"

definition toNumber :: "int \<Rightarrow> number" where
  "toNumber v =
     (case roundToDouble (nat \<bar>v\<bar>) of
        None \<Rightarrow> if v < 0 then MinusInfinity else PlusInfinity
      | Some m \<Rightarrow> Num (if v < 0 then - int m else int m))"

text \<open>
  \<open>parseInt\<close> with one argument: leading white space is skipped, a sign is taken, a
  prefix \<open>0x\<close> or \<open>0X\<close> selects radix 16, and the longest run of digits of the radix is
  read, whatever follows it. Without a digit the result is NaN. The value is the double
  nearest to the numeral, as the engine of the host computes it (beyond 20 significant
  digits the language would also allow an approximation).
\<close>

definition isNegative :: "ustring \<Rightarrow> bool" where
  "isNegative str = startsWith (dropWhile isWhiteSpace str) [45]"

definition unsignedPart :: "ustring \<Rightarrow> ustring" where
  "unsignedPart str =
     (if startsWith (dropWhile isWhiteSpace str) [45]
         \<or> startsWith (dropWhile isWhiteSpace str) [43]
      then tl (dropWhile isWhiteSpace str) else dropWhile isWhiteSpace str)"

definition radixOf :: "ustring \<Rightarrow> nat" where
  "radixOf u = (if startsWith u [48, 120] \<or> startsWith u [48, 88] then 16 else 10)"

definition isRadixDigit :: "nat \<Rightarrow> uchar \<Rightarrow> bool" where
  "isRadixDigit radix c \<longleftrightarrow>
     isDigit c \<or> (radix = 16 \<and> ((97 \<le> c \<and> c \<le> 102) \<or> (65 \<le> c \<and> c \<le> 70)))"

definition digitsOf :: "ustring \<Rightarrow> ustring" where
  "digitsOf u = takeWhile (isRadixDigit (radixOf u)) (if radixOf u = 16 then drop 2 u else u)"

definition digitValue :: "uchar \<Rightarrow> nat" where
  "digitValue c = (if c \<le> 57 then c - 48 else if 97 \<le> c then c - 87 else c - 55)"

definition numeralValue :: "nat \<Rightarrow> ustring \<Rightarrow> nat" where
  "numeralValue radix z = foldl (\<lambda>a c. a * radix + digitValue c) 0 z"

definition parseInt :: "ustring \<Rightarrow> number option" where
  "parseInt str =
     (if digitsOf (unsignedPart str) = [] then None
      else Some (toNumber ((if isNegative str then - 1 else 1)
             * int (numeralValue (radixOf (unsignedPart str)) (digitsOf (unsignedPart str))))))"

text \<open>
  The errors of the operations, one constructor for each message of the source. The
  first two are the malformed identifiers, the two \<open>InvalidLineNumber\<close>s are the message
  of the handlers and the message of the file operations, which adds the line count.
\<close>

datatype error =
    InvalidTaskIdFormat ustring
  | InvalidLineNumberInTaskId ustring
  | AddressRequired
  | FileNotFound ustring
  | InvalidLineNumber number
  | InvalidLineNumberOfFile number nat
  | NoTaskFound ustring number

fun isMalformedIdentifier :: "error \<Rightarrow> bool" where
  "isMalformedIdentifier (InvalidTaskIdFormat t) = True"
| "isMalformedIdentifier (InvalidLineNumberInTaskId t) = True"
| "isMalformedIdentifier _ = False"

fun isInvalidLineNumber :: "error \<Rightarrow> bool" where
  "isInvalidLineNumber (InvalidLineNumber n) = True"
| "isInvalidLineNumber (InvalidLineNumberOfFile n k) = True"
| "isInvalidLineNumber _ = False"

definition lastIndexOf :: "ustring \<Rightarrow> uchar \<Rightarrow> nat option" where
  "lastIndexOf s c =
     (if c \<in> set s then Some (length s - Suc (length (takeWhile (\<lambda>x. x \<noteq> c) (rev s))))
      else None)"

definition parseTaskId :: "ustring \<Rightarrow> error + ustring \<times> number" where
  "parseTaskId tid =
     (case lastIndexOf tid 58 of
        None \<Rightarrow> Inl (InvalidTaskIdFormat tid)
      | Some lastColon \<Rightarrow>
          (case parseInt (drop (lastColon + 1) tid) of
             None \<Rightarrow> Inl (InvalidLineNumberInTaskId tid)
           | Some lineNo \<Rightarrow> Inr (take lastColon tid, lineNo)))"

section \<open>The line-targeting operations\<close>

text \<open>
  The vault is the document store: a path leads to a file with its text, to a folder, or
  to nothing. An operation returns its answer and the vault after it.
\<close>

datatype entry = TFile ustring | TFolder

type_synonym vault = "ustring \<Rightarrow> entry option"

text \<open>
  The address arguments of a tool call. \<open>lineNumber\<close> is taken as an integer. The source
  tests the arguments for truthiness: an empty string and the number 0 count as absent.
\<close>

record address =
  taskId :: "ustring option"
  filePathArg :: "ustring option"
  lineNumberArg :: "int option"

definition addressByPath :: "address \<Rightarrow> error + ustring \<times> number" where
  "addressByPath a =
     (case (filePathArg a, lineNumberArg a) of
        (Some path, Some n) \<Rightarrow>
          if path \<noteq> [] \<and> n \<noteq> 0 then Inr (path, toNumber n) else Inl AddressRequired
      | _ \<Rightarrow> Inl AddressRequired)"

definition resolveAddress :: "address \<Rightarrow> error + ustring \<times> number" where
  "resolveAddress a =
     (case taskId a of
        None \<Rightarrow> addressByPath a
      | Some tid \<Rightarrow> if tid \<noteq> [] then parseTaskId tid else addressByPath a)"

definition readLines :: "vault \<Rightarrow> ustring \<Rightarrow> ustring list option" where
  "readLines v path =
     (case v path of Some (TFile content) \<Rightarrow> Some (split content [10]) | _ \<Rightarrow> None)"

text \<open>
  \<open>lineNumber < 1 || lineNumber > lines.length\<close>; an infinity is on one side or the
  other of every length. \<open>lineValue\<close> is the integer of a number that is in range.
\<close>

definition outOfRange :: "number \<Rightarrow> nat \<Rightarrow> bool" where
  "outOfRange n len =
     (case n of Num i \<Rightarrow> i < 1 \<or> int len < i | PlusInfinity \<Rightarrow> True | MinusInfinity \<Rightarrow> True)"

definition lineValue :: "number \<Rightarrow> int" where
  "lineValue n = (case n of Num i \<Rightarrow> i | PlusInfinity \<Rightarrow> 0 | MinusInfinity \<Rightarrow> 0)"

definition lineIndex :: "number \<Rightarrow> nat" where
  "lineIndex n = nat (lineValue n - 1)"

record outcome =
  outPath :: ustring
  outLine :: number
  oldTask :: ustring
  newTask :: "ustring option"

definition writeLines :: "vault \<Rightarrow> ustring \<Rightarrow> ustring list \<Rightarrow> vault" where
  "writeLines v path lines = v(path \<mapsto> TFile (joinWith [10] lines))"

definition updateTaskInFile ::
    "vault \<Rightarrow> ustring \<Rightarrow> number \<Rightarrow> ustring \<Rightarrow> (error + outcome) \<times> vault" where
  "updateTaskInFile v path n newTaskMarkdown =
     (case readLines v path of
        None \<Rightarrow> (Inl (FileNotFound path), v)
      | Some lines \<Rightarrow>
          if outOfRange n (length lines)
            then (Inl (InvalidLineNumberOfFile n (length lines)), v)
          else (Inr \<lparr>outPath = path, outLine = n, oldTask = lines ! lineIndex n,
                     newTask = Some newTaskMarkdown\<rparr>,
                writeLines v path (lines[lineIndex n := newTaskMarkdown])))"

definition removeTaskFromFile ::
    "vault \<Rightarrow> ustring \<Rightarrow> number \<Rightarrow> (error + outcome) \<times> vault" where
  "removeTaskFromFile v path n =
     (case readLines v path of
        None \<Rightarrow> (Inl (FileNotFound path), v)
      | Some lines \<Rightarrow>
          if outOfRange n (length lines)
            then (Inl (InvalidLineNumberOfFile n (length lines)), v)
          else (Inr \<lparr>outPath = path, outLine = n, oldTask = lines ! lineIndex n,
                     newTask = None\<rparr>,
                writeLines v path (take (lineIndex n) lines @ drop (Suc (lineIndex n)) lines)))"

text \<open>
  \<open>taskLine.replace(/\[.\]/, ...)\<close>: the first bracket pair around one character. The
  expression has no \<open>u\<close> flag, so that the character is one code unit.
\<close>

fun replaceStatus :: "uchar \<Rightarrow> ustring \<Rightarrow> ustring" where
  "replaceStatus n (a # b # c # r) =
     (if a = 91 \<and> b < 65536 \<and> \<not> isLineTerminator b \<and> c = 93 then 91 # n # 93 # r
      else a # replaceStatus n (b # c # r))"
| "replaceStatus n s = s"

text \<open>
  \<open>toggle_task\<close>. The first argument is the capability of the Tasks plugin, when it is
  installed: the function that toggles a line.
\<close>

definition toggle_task ::
    "(ustring \<Rightarrow> ustring \<Rightarrow> ustring) option \<Rightarrow> vault \<Rightarrow> address
       \<Rightarrow> (error + outcome) \<times> vault" where
  "toggle_task tasksApi v a =
     (case resolveAddress a of
        Inl e \<Rightarrow> (Inl e, v)
      | Inr (path, n) \<Rightarrow>
          (case readLines v path of
             None \<Rightarrow> (Inl (FileNotFound path), v)
           | Some lines \<Rightarrow>
               if outOfRange n (length lines) then (Inl (InvalidLineNumber n), v)
               else (case tasksApi of
                       Some api \<Rightarrow>
                         (Inr \<lparr>outPath = path, outLine = n, oldTask = lines ! lineIndex n,
                               newTask = Some (api (lines ! lineIndex n) path)\<rparr>,
                          writeLines v path
                            (lines[lineIndex n := api (lines ! lineIndex n) path]))
                     | None \<Rightarrow>
                         (case parseTaskLine (lines ! lineIndex n) path (lineValue n) of
                            None \<Rightarrow> (Inl (NoTaskFound path n), v)
                          | Some task \<Rightarrow>
                              (Inr \<lparr>outPath = path, outLine = n,
                                    oldTask = lines ! lineIndex n,
                                    newTask = Some (replaceStatus
                                      (if status task = Complete then 32 else 120)
                                      (lines ! lineIndex n))\<rparr>,
                               writeLines v path
                                 (lines[lineIndex n := replaceStatus
                                    (if status task = Complete then 32 else 120)
                                    (lines ! lineIndex n)]))))))"

definition update_task ::
    "vault \<Rightarrow> address \<Rightarrow> updateArgs \<Rightarrow> (error + outcome) \<times> vault" where
  "update_task v a args =
     (case resolveAddress a of
        Inl e \<Rightarrow> (Inl e, v)
      | Inr (path, n) \<Rightarrow>
          (case readLines v path of
             None \<Rightarrow> (Inl (FileNotFound path), v)
           | Some lines \<Rightarrow>
               if outOfRange n (length lines) then (Inl (InvalidLineNumber n), v)
               else (case parseTaskLine (lines ! lineIndex n) path (lineValue n) of
                       None \<Rightarrow> (Inl (NoTaskFound path n), v)
                     | Some currentTask \<Rightarrow>
                         updateTaskInFile v path n
                           (updatedTaskMarkdown args (lines ! lineIndex n) currentTask))))"

definition remove_task :: "vault \<Rightarrow> address \<Rightarrow> (error + outcome) \<times> vault" where
  "remove_task v a =
     (case resolveAddress a of
        Inl e \<Rightarrow> (Inl e, v)
      | Inr (path, n) \<Rightarrow> removeTaskFromFile v path n)"

section \<open>Properties of the filter evaluator and of the query\<close>

definition env0 :: env where
  "env0 = \<lparr>today = ustr ''2025-04-15'', lowerCase = Abs_lowerCasing lowerAscii\<rparr>"

definition task0 :: Task where
  "task0 = \<lparr>task_id = ustr ''a.md:1'', description = ustr ''a'', status = Cancelled,
     statusSymbol = 45, filePath = ustr ''a.md'', lineNumber = 1, tags = [],
     dueDate = None, scheduledDate = None, createdDate = None, startDate = None,
     priority = None, recurrence = None, originalMarkdown = ustr ''- [-] a''\<rparr>"

definition task1 :: Task where
  "task1 = \<lparr>task_id = ustr ''a.md:2'', description = ustr ''b'', status = Incomplete,
     statusSymbol = 32, filePath = ustr ''a.md'', lineNumber = 2, tags = [],
     dueDate = None, scheduledDate = None, createdDate = None, startDate = None,
     priority = None, recurrence = None, originalMarkdown = ustr ''- [ ] b''\<rparr>"

lemma toLowerCase_env0: "toLowerCase env0 s = lowerAscii s"
  by (simp add: toLowerCase_def env0_def Abs_lowerCasing_inverse isLowerCasing_lowerAscii)

lemmas eval_defs = ustr_def trim_def isWhiteSpace_def normalize_def toLowerCase_env0
  lowerAscii_def split.simps applyFilter.simps leafFilter_def dueDateMatch_def
  dueBeforeMatch_def dueAfterMatch_def dateOf_def dateBefore_def dateAfter_def
  tagsInclude_def

lemma normalize_done: "normalize e (ustr ''done'') = ustr ''done''"
  by (simp add: normalize_def toLowerCase_ascii lowerAscii_def ustr_def trim_def isWhiteSpace_def)

lemma normalize_not_done: "normalize e (ustr ''not done'') = ustr ''not done''"
  by (simp add: normalize_def toLowerCase_ascii lowerAscii_def ustr_def trim_def isWhiteSpace_def)

lemma applyFilter_done: "applyFilter e t (ustr ''done'') = (status t = Complete)"
  by (subst applyFilter.simps) (simp add: normalize_done, simp add: ustr_def leafFilter_def)

lemma applyFilter_not_done:
  "applyFilter e t (ustr ''not done'') = (status t = Incomplete \<or> status t = In_progress)"
  by (subst applyFilter.simps) (simp add: normalize_not_done, simp add: ustr_def leafFilter_def)

lemma applyFilter_normal_done:
  "normalize e f = ustr ''done'' \<Longrightarrow> applyFilter e t f = (status t = Complete)"
  by (subst applyFilter.simps) (simp, simp add: ustr_def leafFilter_def)

lemma applyFilter_normal_not_done:
  "normalize e f = ustr ''not done''
     \<Longrightarrow> applyFilter e t f = (status t = Incomplete \<or> status t = In_progress)"
  by (subst applyFilter.simps) (simp, simp add: ustr_def leafFilter_def)

text \<open>
  Claim C2. For every task, the filter \<open>done\<close> is true exactly when the status is
  complete, and the filter \<open>not done\<close> exactly when the status is incomplete or in
  progress; so is every filter string that the evaluator lower-cases and trims to one of
  the two. \<open>not done\<close> is a leaf of its own and not the negation of \<open>done\<close>: the two
  readings differ exactly on the cancelled tasks.
\<close>

theorem done_and_not_done:
  "(applyFilter e task (ustr ''done'') \<longleftrightarrow> status task = Complete) \<and>
   (applyFilter e task (ustr ''not done'') \<longleftrightarrow>
      status task = Incomplete \<or> status task = In_progress) \<and>
   ((applyFilter e task (ustr ''not done'') \<longleftrightarrow> \<not> applyFilter e task (ustr ''done''))
      \<longleftrightarrow> status task \<noteq> Cancelled) \<and>
   (normalize e f = ustr ''done'' \<longrightarrow> (applyFilter e task f \<longleftrightarrow> status task = Complete)) \<and>
   (normalize e f = ustr ''not done'' \<longrightarrow>
      (applyFilter e task f \<longleftrightarrow> status task = Incomplete \<or> status task = In_progress))"
proof -
  have "(applyFilter e task (ustr ''not done'') \<longleftrightarrow> \<not> applyFilter e task (ustr ''done''))
      \<longleftrightarrow> status task \<noteq> Cancelled"
    unfolding applyFilter_done applyFilter_not_done by (cases "status task") simp_all
  then show ?thesis
    by (simp add: applyFilter_done applyFilter_not_done applyFilter_normal_done
        applyFilter_normal_not_done)
qed

theorem done_and_not_done_witness:
  "\<not> applyFilter env0 task0 (ustr ''done'') \<and> \<not> applyFilter env0 task0 (ustr ''not done'') \<and>
   \<not> applyFilter env0 task0 (ustr '' NOT Done '') \<and>
   applyFilter env0 task1 (ustr '' NOT Done '')"
proof -
  have n: "normalize env0 (ustr '' NOT Done '') = ustr ''not done''"
    by (simp add: normalize_def toLowerCase_ascii lowerAscii_def ustr_def trim_def
        isWhiteSpace_def)
  from done_and_not_done [of env0 task0 "ustr '' NOT Done ''"]
    done_and_not_done [of env0 task1 "ustr '' NOT Done ''"] n
  show ?thesis by (simp add: task0_def task1_def)
qed

lemma passesAll_iff: "passesAll e t fs \<longleftrightarrow> (\<forall>f \<in> set fs. applyFilter e t f)"
  by (induction fs) auto

text \<open>
  Claim C3. The query keeps exactly the tasks on which every retained predicate line
  is true, the retained lines being the trimmed lines of the query text that are neither
  empty nor start with \<open>#\<close>; the tasks come out in the order of the input.
\<close>

theorem queryTasks_retains:
  "queryTasks e tasks queryText =
     filter (\<lambda>task. \<forall>line \<in> set (split queryText [10]).
                trim line \<noteq> [] \<and> \<not> startsWith (trim line) [35]
                  \<longrightarrow> applyFilter e task (trim line)) tasks
   \<and> subseq (queryTasks e tasks queryText) tasks"
proof
  show "queryTasks e tasks queryText =
     filter (\<lambda>task. \<forall>line \<in> set (split queryText [10]).
                trim line \<noteq> [] \<and> \<not> startsWith (trim line) [35]
                  \<longrightarrow> applyFilter e task (trim line)) tasks"
    unfolding queryTasks_def queryFilters_def passesAll_iff
    by (rule filter_cong) auto
  show "subseq (queryTasks e tasks queryText) tasks"
    by (simp add: queryTasks_def)
qed

theorem queryTasks_retains_witness:
  "queryTasks env0 [task0, task1] (ustr ''not done'' @ [10] @ ustr ''# all'' @ [10, 32])
     = [task1]"
  using queryTasks_retains
    [of env0 "[task0, task1]" "ustr ''not done'' @ [10] @ ustr ''# all'' @ [10, 32]"]
  by (simp add: eval_defs task0_def task1_def)

lemma trim_blank: "\<forall>c \<in> set line. isWhiteSpace c \<Longrightarrow> trim line = []"
  by (auto simp: trim_def dest: set_dropWhileD)

lemma trim_hash: "startsWith line [35] \<Longrightarrow> startsWith (trim line) [35]"
proof -
  assume "startsWith line [35]"
  then obtain r where l: "line = 35 # r" by (cases line) auto
  have nws: "\<not> isWhiteSpace 35" by (simp add: isWhiteSpace_def)
  have "dropWhile isWhiteSpace (rev r @ [35]) = dropWhile isWhiteSpace (rev r) @ [35]"
    using nws by (simp add: dropWhile_append3)
  with l nws show ?thesis by (simp add: trim_def)
qed

lemma queryFilters_empty:
  assumes "\<forall>line \<in> set (split queryText [10]).
             (\<forall>c \<in> set line. isWhiteSpace c) \<or> startsWith line [35]"
  shows "queryFilters queryText = []"
proof -
  have "trim line = [] \<or> startsWith (trim line) [35]"
    if "line \<in> set (split queryText [10])" for line
    using assms that trim_blank trim_hash by blast
  then show ?thesis
    by (auto simp: queryFilters_def filter_empty_conv)
qed

text \<open>
  Claim C10. A query text all of whose lines are blank or start with \<open>#\<close>, the empty
  text among them, returns the list of tasks as it is.
\<close>

theorem queryTasks_identity:
  assumes "\<forall>line \<in> set (split queryText [10]).
             (\<forall>c \<in> set line. isWhiteSpace c) \<or> startsWith line [35]"
  shows "queryTasks e tasks queryText = tasks"
  by (simp add: queryTasks_def queryFilters_empty [OF assms])

theorem queryTasks_identity_witness:
  "queryTasks env0 [task0, task1] [] = [task0, task1] \<and>
   queryTasks env0 [task0, task1] (ustr ''# all'' @ [10, 10, 32, 32]) = [task0, task1]"
proof -
  have a: "\<forall>line \<in> set (split [] [10]).
             (\<forall>c \<in> set line. isWhiteSpace c) \<or> startsWith line [35]"
    by (simp add: split.simps)
  have b: "\<forall>line \<in> set (split (ustr ''# all'' @ [10, 10, 32, 32]) [10]).
             (\<forall>c \<in> set line. isWhiteSpace c) \<or> startsWith line [35]"
    by (simp add: split.simps ustr_def isWhiteSpace_def)
  from queryTasks_identity [OF a] queryTasks_identity [OF b] show ?thesis by simp
qed

text \<open>
  Claim C4. When the filter, as the evaluator tests it (lower-cased and trimmed),
  contains both \<open> and \<close> and \<open> or \<close>, it is split at \<open> and \<close> first and
  is true exactly when every part is: \<open>a or b and c\<close> is read as \<open>(a or b) and c\<close>.
\<close>

theorem and_before_or:
  assumes "includesStr (normalize e f) (ustr '' and '')"
    and "includesStr (normalize e f) (ustr '' or '')"
  shows "applyFilter e task f \<longleftrightarrow>
    (\<forall>part \<in> set (split (normalize e f) (ustr '' and '')). applyFilter e task (trim part))"
  using assms(1) by (subst applyFilter.simps) (simp add: list_all_iff)

theorem and_before_or_witness:
  "\<not> applyFilter env0 task0 (ustr ''a or b and c'') \<and>
   (applyFilter env0 task0 (ustr ''a'')
      \<or> (applyFilter env0 task0 (ustr ''b'') \<and> applyFilter env0 task0 (ustr ''c'')))"
proof -
  have n: "normalize env0 (ustr ''a or b and c'') = ustr ''a or b and c''"
    by (simp add: normalize_def toLowerCase_ascii lowerAscii_def ustr_def trim_def
        isWhiteSpace_def)
  have 1: "includesStr (normalize env0 (ustr ''a or b and c'')) (ustr '' and '')"
    unfolding n by (simp add: ustr_def)
  have 2: "includesStr (normalize env0 (ustr ''a or b and c'')) (ustr '' or '')"
    unfolding n by (simp add: ustr_def)
  have c: "\<not> applyFilter env0 task0 (ustr ''c'')"
    by (simp add: eval_defs task0_def)
  have a: "applyFilter env0 task0 (ustr ''a'')"
    by (simp add: eval_defs task0_def)
  have s: "split (ustr ''a or b and c'') (ustr '' and '') = [ustr ''a or b'', ustr ''c'']"
    by (simp add: split.simps ustr_def)
  have t: "trim (ustr ''c'') = ustr ''c''"
    by (simp add: ustr_def trim_def isWhiteSpace_def)
  from and_before_or [OF 1 2, of task0] c a show ?thesis
    unfolding n s by (simp add: t)
qed

section \<open>Properties of the line parser\<close>

lemmas glyph_defs = glyphDue_def glyphDueAlt_def variationSelector_def glyphScheduled_def
  glyphStart_def glyphCreated_def glyphRecurrence_def glyphHigh_def glyphMedium_def
  glyphLow_def glyphLowest_def

lemmas parse_defs = parseTaskLine_def taskRegex_def listMarker_def isIndentChar_def
  isLineTerminator_def isDigit_def statusOf_def dueDateRegex_def scheduledDateRegex_def
  startDateRegex_def createdDateRegex_def isTagChar_def dateOf_def showInt_def showNat.simps
  isDueGlyph_def isPriorityGlyph_def ustr_def trim_def isWhiteSpace_def

definition exampleLine :: ustring where
  "exampleLine = ustr ''- [ ] A '' @ [glyphDue] @ ustr '' 2025-04-01 #work''"

definition exampleTask :: Task where
  "exampleTask = \<lparr>task_id = ustr ''a.md:1'',
     description = ustr ''A '' @ [glyphDue] @ ustr '' 2025-04-01 #work'',
     status = Incomplete, statusSymbol = 32, filePath = ustr ''a.md'', lineNumber = 1,
     tags = [ustr ''#work''], dueDate = Some (ustr ''2025-04-01''), scheduledDate = None,
     createdDate = None, startDate = None, priority = None, recurrence = None,
     originalMarkdown = exampleLine\<rparr>"

lemma parse_exampleLine: "parseTaskLine exampleLine (ustr ''a.md'') 1 = Some exampleTask"
  by (simp add: exampleLine_def exampleTask_def parse_defs glyph_defs)


lemma sublist_trans: "sublist xs ys \<Longrightarrow> sublist ys zs \<Longrightarrow> sublist xs zs"
  by (rule sublist_order.order.trans)

lemma sublist_ConsI: "sublist xs ys \<Longrightarrow> sublist xs (y # ys)"
  by (simp add: sublist_Cons_right)

lemma listMarker_suffix: "listMarker s = Some (m, r) \<Longrightarrow> suffix r s"
proof -
  assume a: "listMarker s = Some (m, r)"
  show ?thesis
  proof (cases s)
    case Nil
    with a show ?thesis by (simp add: listMarker_def)
  next
    case (Cons c cs)
    show ?thesis
    proof (cases "c = 45 \<or> c = 42 \<or> c = 43")
      case True
      with a Cons have "r = cs" by (auto simp: listMarker_def)
      with Cons show ?thesis by (simp add: suffix_ConsI)
    next
      case False
      with a Cons obtain p where "dropWhile isDigit s = p # r"
        by (auto simp: listMarker_def split: list.splits if_splits)
      then have "suffix (p # r) s" by (metis suffix_dropWhile)
      then show ?thesis by (rule suffix_ConsD)
    qed
  qed
qed

lemma taskRegex_content:
  assumes "taskRegex line = Some (indent, marker, st, content)"
  shows "sublist content line"
proof -
  from assms obtain mr where mr: "listMarker (dropWhile isIndentChar line) = Some mr"
    by (cases "listMarker (dropWhile isIndentChar line)") (auto simp: taskRegex_def)
  obtain m' r where "mr = (m', r)" by (cases mr)
  with mr have lm: "listMarker (dropWhile isIndentChar line) = Some (m', r)" by simp
  with assms obtain sp r1 where r: "r = sp # r1"
    by (cases r) (auto simp: taskRegex_def)
  with assms lm obtain lb rb r2 where
    d: "dropWhile (\<lambda>c. c = 32) r1 = lb # st # rb # r2" and
    c: "content = takeWhile (\<lambda>c. \<not> isLineTerminator c) (dropWhile (\<lambda>c. c = 32) r2)"
    by (auto simp: taskRegex_def split: list.splits if_splits)
  have "sublist content r2" unfolding c
    by (rule sublist_trans [OF sublist_takeWhile sublist_dropWhile])
  also have "sublist r2 (lb # st # rb # r2)"
    by (intro sublist_ConsI) simp
  also have "sublist (lb # st # rb # r2) r1"
    using d by (metis sublist_dropWhile)
  also have "sublist r1 r" by (simp add: r sublist_ConsI)
  also have "sublist r (dropWhile isIndentChar line)"
    using listMarker_suffix [OF lm] by simp
  also have "sublist (dropWhile isIndentChar line) line" by simp
  finally show ?thesis .
qed

lemma optWsDate_Some:
  "optWsDate cs = Some d \<Longrightarrow>
     isDate d \<and> (prefix d cs \<or> (\<exists>w. isWhiteSpace w \<and> prefix (w # d) cs))"
  by (cases cs) (auto simp: dateOf_def take_is_prefix split: if_splits)

lemma glyphWith_Cons: "glyphWith c d s \<Longrightarrow> glyphWith c d (x # s)"
  by (auto simp: glyphWith_def sublist_Cons_right)

lemma dateRegex_Some:
  "dateRegex g s = Some d \<Longrightarrow> isDate d \<and> (\<exists>c. g c \<and> glyphWith c d s)"
proof (induction s)
  case Nil
  then show ?case by simp
next
  case (Cons c cs)
  show ?case
  proof (cases "g c \<and> optWsDate cs \<noteq> None")
    case True
    with Cons.prems have o: "optWsDate cs = Some d" by simp
    from optWsDate_Some [OF o] have "isDate d" and
      "prefix d cs \<or> (\<exists>w. isWhiteSpace w \<and> prefix (w # d) cs)" by simp_all
    then have "glyphWith c d (c # cs)"
      by (auto simp: glyphWith_def sublist_Cons_right)
    with True \<open>isDate d\<close> show ?thesis by blast
  next
    case False
    with Cons.prems have "dateRegex g cs = Some d" by auto
    from Cons.IH [OF this] show ?thesis by (blast intro: glyphWith_Cons)
  qed
qed

lemma dropOptWs_cases:
  "dropOptWs cs = cs \<or> (\<exists>w. isWhiteSpace w \<and> cs = w # dropOptWs cs)"
  by (cases cs) auto

lemma recurrenceRegex_Some:
  "recurrenceRegex s = Some r \<Longrightarrow> glyphWith glyphRecurrence r s"
proof (induction s)
  case Nil
  then show ?case by simp
next
  case (Cons c cs)
  show ?case
  proof (cases "c = glyphRecurrence")
    case True
    with Cons.prems have r: "r = takeWhile (\<lambda>x. \<not> isWhiteSpace x) (dropOptWs cs)" by simp
    then have p: "prefix r (dropOptWs cs)" by (simp add: takeWhile_is_prefix)
    from dropOptWs_cases [of cs] show ?thesis
    proof
      assume "dropOptWs cs = cs"
      with p True show ?thesis by (simp add: glyphWith_def sublist_Cons_right)
    next
      assume "\<exists>w. isWhiteSpace w \<and> cs = w # dropOptWs cs"
      then obtain w where w: "isWhiteSpace w" and cs: "cs = w # dropOptWs cs" by blast
      from p have "prefix (c # w # r) (c # w # dropOptWs cs)" by simp
      with cs have "prefix (c # w # r) (c # cs)" by simp
      with w True show ?thesis unfolding glyphWith_def by blast
    qed
  next
    case False
    with Cons.prems have "recurrenceRegex cs = Some r" by simp
    from Cons.IH [OF this] show ?thesis by (rule glyphWith_Cons)
  qed
qed

lemma priorityRegex_Some: "priorityRegex s = Some p \<Longrightarrow> sublist (priorityGlyphs p) s"
proof (induction s)
  case Nil
  then show ?case by simp
next
  case (Cons c cs)
  show ?case
  proof (cases "isPriorityGlyph c")
    case False
    with Cons.prems have "priorityRegex cs = Some p"
      by (simp add: isPriorityGlyph_def)
    from Cons.IH [OF this] show ?thesis by (rule sublist_ConsI)
  next
    case True
    have "prefix (priorityGlyphs p) (c # cs)"
      using Cons.prems True by (cases cs) (auto simp: isPriorityGlyph_def split: if_splits)
    then show ?thesis by simp
  qed
qed

lemma hashTagsRegex_sublist: "m \<in> set (hashTagsRegex b s) \<Longrightarrow> sublist m s"
proof (induction b s rule: hashTagsRegex.induct)
  case (1 atStart)
  then show ?case by simp
next
  case (2 atStart c cs)
  let ?A = "atStart \<and> c = 35 \<and> takeWhile isTagChar cs \<noteq> []"
  let ?B = "isWhiteSpace c \<and> startsWith cs [35] \<and> takeWhile isTagChar (tl cs) \<noteq> []"
  show ?case
  proof (cases ?A)
    case True
    with "2.prems" have "m = c # takeWhile isTagChar cs \<or>
        m \<in> set (hashTagsRegex False (dropWhile isTagChar cs))" by simp
    then show ?thesis
    proof
      assume "m = c # takeWhile isTagChar cs"
      then have "prefix m (c # cs)" by (simp add: takeWhile_is_prefix)
      then show ?thesis by simp
    next
      assume "m \<in> set (hashTagsRegex False (dropWhile isTagChar cs))"
      with "2.IH"(1) [OF True] have "sublist m (dropWhile isTagChar cs)" by simp
      then have "sublist m cs" by (rule sublist_trans) simp
      then show ?thesis by (rule sublist_ConsI)
    qed
  next
    case notA: False
    show ?thesis
    proof (cases ?B)
      case True
      then obtain ds where cs: "cs = 35 # ds" by (cases cs) auto
      from "2.prems" notA True cs have "m = c # 35 # takeWhile isTagChar ds \<or>
        m \<in> set (hashTagsRegex False (dropWhile isTagChar (tl cs)))" by auto
      then show ?thesis
      proof
        assume "m = c # 35 # takeWhile isTagChar ds"
        then have "prefix m (c # cs)" by (simp add: cs takeWhile_is_prefix)
        then show ?thesis by simp
      next
        assume "m \<in> set (hashTagsRegex False (dropWhile isTagChar (tl cs)))"
        with "2.IH"(2) [OF notA True] have "sublist m (dropWhile isTagChar (tl cs))" by simp
        then have "sublist m (tl cs)" by (rule sublist_trans) simp
        then have "sublist m cs" by (rule sublist_trans) simp
        then show ?thesis by (rule sublist_ConsI)
      qed
    next
      case False
      with "2.prems" notA have "m \<in> set (hashTagsRegex False cs)" by auto
      with "2.IH"(3) [OF notA False] show ?thesis by (simp add: sublist_ConsI)
    qed
  qed
qed

text \<open>
  Claim C1, as the code has it. The description of a recognised line is the trimmed
  text behind the status bracket with nothing taken out: it is a contiguous part of the
  line, and every extracted tag, every extracted date next to its glyph, the recurrence
  text next to its glyph and the glyphs of the priority still stand in it.
\<close>

theorem description_keeps_metadata:
  assumes "parseTaskLine line path n = Some t"
  shows "sublist (description t) line \<and>
    (\<forall>tag \<in> set (tags t). sublist tag (description t)) \<and>
    (\<forall>d. dueDate t = Some d \<longrightarrow> (\<exists>c. isDueGlyph c \<and> glyphWith c d (description t))) \<and>
    (\<forall>d. scheduledDate t = Some d \<longrightarrow> glyphWith glyphScheduled d (description t)) \<and>
    (\<forall>d. startDate t = Some d \<longrightarrow> glyphWith glyphStart d (description t)) \<and>
    (\<forall>d. createdDate t = Some d \<longrightarrow> glyphWith glyphCreated d (description t)) \<and>
    (\<forall>r. recurrence t = Some r \<longrightarrow> glyphWith glyphRecurrence r (description t)) \<and>
    (\<forall>p. priority t = Some p \<longrightarrow> sublist (priorityGlyphs p) (description t))"
proof -
  from assms obtain indent marker st content where
    m: "taskRegex line = Some (indent, marker, st, content)"
    by (auto simp: parseTaskLine_def split: option.splits)
  with assms have
    d: "description t = trim content" and
    tg: "tags t = filter (\<lambda>tag. tag \<noteq> []) (map trim (hashTagsRegex True (trim content)))" and
    du: "dueDate t = dueDateRegex (trim content)" and
    sc: "scheduledDate t = scheduledDateRegex (trim content)" and
    sa: "startDate t = startDateRegex (trim content)" and
    cr: "createdDate t = createdDateRegex (trim content)" and
    re: "recurrence t = recurrenceRegex (trim content)" and
    pr: "priority t = priorityRegex (trim content)"
    by (auto simp: parseTaskLine_def)
  have 1: "sublist (description t) line"
    unfolding d by (rule sublist_trans [OF sublist_trim taskRegex_content [OF m]])
  have 2: "\<forall>tag \<in> set (tags t). sublist tag (description t)"
    unfolding tg d by (auto intro: sublist_trans [OF sublist_trim hashTagsRegex_sublist])
  have 3: "\<forall>d. dueDate t = Some d \<longrightarrow> (\<exists>c. isDueGlyph c \<and> glyphWith c d (description t))"
    unfolding du d dueDateRegex_def by (blast dest: dateRegex_Some)
  have 4: "\<forall>d. scheduledDate t = Some d \<longrightarrow> glyphWith glyphScheduled d (description t)"
    unfolding sc d scheduledDateRegex_def by (blast dest: dateRegex_Some)
  have 5: "\<forall>d. startDate t = Some d \<longrightarrow> glyphWith glyphStart d (description t)"
    unfolding sa d startDateRegex_def by (blast dest: dateRegex_Some)
  have 6: "\<forall>d. createdDate t = Some d \<longrightarrow> glyphWith glyphCreated d (description t)"
    unfolding cr d createdDateRegex_def by (blast dest: dateRegex_Some)
  have 7: "\<forall>r. recurrence t = Some r \<longrightarrow> glyphWith glyphRecurrence r (description t)"
    unfolding re d by (blast dest: recurrenceRegex_Some)
  have 8: "\<forall>p. priority t = Some p \<longrightarrow> sublist (priorityGlyphs p) (description t)"
    unfolding pr d by (blast dest: priorityRegex_Some)
  from 1 2 3 4 5 6 7 8 show ?thesis by blast
qed

theorem description_keeps_metadata_witness:
  "parseTaskLine exampleLine (ustr ''a.md'') 1 = Some exampleTask \<and>
   sublist (description exampleTask) exampleLine \<and>
   sublist (ustr ''#work'') (description exampleTask)"
  using description_keeps_metadata [OF parse_exampleLine] parse_exampleLine
  by (simp add: exampleTask_def)

text \<open>
  The description that the parser returns for the line
  \<open>- [ ] A <calendar> 2025-04-01 #work\<close> still holds the due date with its glyph and
  the tag, both of which are extracted as well.
\<close>

theorem description_not_stripped:
  "map_option description (parseTaskLine exampleLine (ustr ''a.md'') 1)
     = Some (ustr ''A '' @ [glyphDue] @ ustr '' 2025-04-01 #work'') \<and>
   map_option tags (parseTaskLine exampleLine (ustr ''a.md'') 1) = Some [ustr ''#work''] \<and>
   map_option dueDate (parseTaskLine exampleLine (ustr ''a.md'') 1)
     = Some (Some (ustr ''2025-04-01''))"
  by (simp add: parse_exampleLine exampleTask_def)


lemma recurrenceRegex_first:
  "glyphRecurrence \<notin> set pre \<Longrightarrow>
   recurrenceRegex (pre @ glyphRecurrence # s)
     = Some (takeWhile (\<lambda>x. \<not> isWhiteSpace x) (dropOptWs s))"
  by (induction pre) auto

text \<open>
  Claim C6. When the first recurrence glyph of a task line is followed, after at most
  one white space, by a phrase of several words, the recurrence field is the first word
  alone: the text up to the next white space.
\<close>

theorem recurrence_first_word:
  assumes "parseTaskLine line path n = Some t"
    and "description t = pre @ [glyphRecurrence] @ sp @ w @ [x] @ rest"
    and "glyphRecurrence \<notin> set pre"
    and "sp = [] \<or> (\<exists>c. sp = [c] \<and> isWhiteSpace c)"
    and "w \<noteq> []" and "\<forall>c \<in> set w. \<not> isWhiteSpace c" and "isWhiteSpace x"
  shows "recurrence t = Some w"
proof -
  from assms(1) have "recurrence t = recurrenceRegex (description t)"
    by (auto simp: parseTaskLine_def split: option.splits)
  with assms(2,3) have r: "recurrence t
      = Some (takeWhile (\<lambda>x. \<not> isWhiteSpace x) (dropOptWs (sp @ w @ [x] @ rest)))"
    by (simp add: recurrenceRegex_first)
  from assms(5) obtain w1 w' where w: "w = w1 # w'" by (cases w) auto
  with assms(6) have "\<not> isWhiteSpace w1" by simp
  with assms(4) w have "dropOptWs (sp @ w @ [x] @ rest) = w @ x # rest" by auto
  moreover have "takeWhile (\<lambda>x. \<not> isWhiteSpace x) (w @ x # rest) = w"
    using assms(6,7) by (simp add: takeWhile_append2)
  ultimately show ?thesis using r by simp
qed

theorem recurrence_first_word_witness:
  "map_option recurrence
     (parseTaskLine (ustr ''- [ ] pay '' @ [glyphRecurrence] @ ustr '' every 2 weeks'')
        (ustr ''a.md'') 1)
   = Some (Some (ustr ''every''))"
proof -
  let ?line = "ustr ''- [ ] pay '' @ [glyphRecurrence] @ ustr '' every 2 weeks''"
  obtain t where t: "parseTaskLine ?line (ustr ''a.md'') 1 = Some t"
    by (simp add: parse_defs glyph_defs)
  then have d: "description t
      = ustr ''pay '' @ [glyphRecurrence] @ [32] @ ustr ''every'' @ [32] @ ustr ''2 weeks''"
    by (auto simp: parse_defs glyph_defs)
  have "recurrence t = Some (ustr ''every'')"
    by (rule recurrence_first_word [OF t d])
       (simp_all add: ustr_def isWhiteSpace_def glyph_defs)
  with t show ?thesis by simp
qed

lemma isDate_chars: "isDate d \<Longrightarrow> length d = 10 \<and> (\<forall>c \<in> set d. isDateChar c)"
  by (erule isDate.elims) (auto simp: isDateChar_def)




lemma optWsDate_here:
  assumes "isDate d" and "sp = [] \<or> (\<exists>c. sp = [c] \<and> isWhiteSpace c)"
  shows "optWsDate (sp @ d @ post) = Some d"
proof -
  from assms(1) have len: "length d = 10" and "\<forall>c \<in> set d. isDateChar c"
    by (auto dest: isDate_chars)
  then obtain d1 d' where d: "d = d1 # d'" and "isDateChar d1" by (cases d) auto
  then have nws: "\<not> isWhiteSpace d1" by (auto simp: isDateChar_def isDigit_def isWhiteSpace_def)
  from len have t: "take 10 (d @ post) = d" by simp
  from assms(2) show ?thesis
  proof
    assume "sp = []"
    with d nws t assms(1) show ?thesis by (auto simp: dateOf_def)
  next
    assume "\<exists>c. sp = [c] \<and> isWhiteSpace c"
    with t assms(1) show ?thesis by (auto simp: dateOf_def)
  qed
qed



section \<open>Properties of the codec and of the operations\<close>

lemma lastIndexOf_append:
  assumes "c \<notin> set seg"
  shows "lastIndexOf (p @ c # seg) c = Some (length p)"
proof -
  have "takeWhile (\<lambda>x. x \<noteq> c) (rev seg @ c # rev p) = rev seg"
    using assms by (simp add: takeWhile_append)
  then show ?thesis by (simp add: lastIndexOf_def)
qed

lemma lastIndexOf_None: "c \<notin> set s \<Longrightarrow> lastIndexOf s c = None"
  by (simp add: lastIndexOf_def)

lemma bitLength_le: "m < 2 ^ k \<Longrightarrow> bitLength m \<le> k"
proof (induction k arbitrary: m)
  case 0
  then show ?case by (simp add: bitLength.simps)
next
  case (Suc k)
  show ?case
  proof (cases "m = 0")
    case True
    then show ?thesis by (simp add: bitLength.simps)
  next
    case False
    from Suc.prems have "m div 2 < 2 ^ k" by simp
    from Suc.IH [OF this] False show ?thesis by (subst bitLength.simps) simp
  qed
qed

lemma bitLength_power: "bitLength (2 ^ k) = Suc k"
proof (induction k)
  case 0
  show ?case by (simp add: bitLength.simps)
next
  case (Suc k)
  have "bitLength (2 ^ Suc k) = Suc (bitLength (2 ^ Suc k div 2))"
    by (subst bitLength.simps) simp
  with Suc show ?case by simp
qed

lemma roundToDouble_exact:
  assumes "m \<le> 2 ^ 53"
  shows "roundToDouble m = Some m"
proof (cases "m < 2 ^ 53")
  case True
  then have "bitLength m \<le> 53" by (rule bitLength_le)
  then show ?thesis by (simp add: roundToDouble_def)
next
  case False
  with assms have m: "m = 2 ^ 53" by simp
  have "bitLength m = 54" using bitLength_power [of 53] by (simp add: m)
  then show ?thesis by (simp add: roundToDouble_def m)
qed

lemma toNumber_exact:
  assumes "\<bar>v\<bar> \<le> 2 ^ 53"
  shows "toNumber v = Num v"
proof -
  from assms have "nat \<bar>v\<bar> \<le> 2 ^ 53" by simp
  then have "roundToDouble (nat \<bar>v\<bar>) = Some (nat \<bar>v\<bar>)" by (rule roundToDouble_exact)
  then show ?thesis by (simp add: toNumber_def)
qed

lemma digits_read:
  assumes "ds \<noteq> []" and "\<forall>c \<in> set ds. isDigit c"
  shows "radixOf ds = 10" and "digitsOf ds = ds"
proof -
  from assms obtain c cs where ds: "ds = c # cs" by (cases ds) auto
  have x: "\<not> isDigit 120" "\<not> isDigit 88" by (simp_all add: isDigit_def)
  show r: "radixOf ds = 10"
  proof (cases cs)
    case Nil
    then show ?thesis by (simp add: radixOf_def ds)
  next
    case (Cons c' cs')
    with assms(2) ds have "isDigit c'" by simp
    with x have "c' \<noteq> 120" "c' \<noteq> 88" by auto
    with Cons show ?thesis by (simp add: radixOf_def ds)
  qed
  show "digitsOf ds = ds"
    using assms(2) by (simp add: digitsOf_def r isRadixDigit_def)
qed

lemma parseInt_decimal:
  assumes "ds \<noteq> []" and "\<forall>c \<in> set ds. isDigit c"
  shows "parseInt ds = Some (toNumber (int (numeralValue 10 ds)))"
    and "parseInt (43 # ds) = Some (toNumber (int (numeralValue 10 ds)))"
    and "parseInt (45 # ds) = Some (toNumber (- int (numeralValue 10 ds)))"
proof -
  from assms obtain c cs where ds: "ds = c # cs" and d: "isDigit c" by (cases ds) auto
  from d have nws: "\<not> isWhiteSpace c" and ns: "c \<noteq> 45" "c \<noteq> 43"
    by (auto simp: isDigit_def isWhiteSpace_def)
  then have u: "unsignedPart ds = ds" and neg: "\<not> isNegative ds"
    by (simp_all add: unsignedPart_def isNegative_def ds)
  have sg: "\<not> isWhiteSpace 43" "\<not> isWhiteSpace 45" by (simp_all add: isWhiteSpace_def)
  then have up: "unsignedPart (43 # ds) = ds" "\<not> isNegative (43 # ds)"
    and um: "unsignedPart (45 # ds) = ds" "isNegative (45 # ds)"
    by (simp_all add: unsignedPart_def isNegative_def)
  note rd = digits_read [OF assms]
  show "parseInt ds = Some (toNumber (int (numeralValue 10 ds)))"
    using assms(1) by (simp add: parseInt_def u neg rd)
  show "parseInt (43 # ds) = Some (toNumber (int (numeralValue 10 ds)))"
    using assms(1) by (simp add: parseInt_def up rd)
  show "parseInt (45 # ds) = Some (toNumber (- int (numeralValue 10 ds)))"
    using assms(1) by (simp add: parseInt_def um rd)
qed

lemma parseInt_NaN:
  assumes ws: "\<forall>c \<in> set ws. isWhiteSpace c"
    and sg: "sg = [] \<or> sg = [43] \<or> sg = [45]"
    and rest: "rest = [] \<or> (\<not> isDigit (hd rest)
                 \<and> (sg = [] \<longrightarrow> hd rest \<noteq> 43 \<and> hd rest \<noteq> 45 \<and> \<not> isWhiteSpace (hd rest)))"
  shows "parseInt (ws @ sg @ rest) = None"
proof -
  have s: "\<not> isWhiteSpace 43" "\<not> isWhiteSpace 45" by (simp_all add: isWhiteSpace_def)
  have nd: "digitsOf rest = []"
  proof (cases rest)
    case Nil
    then show ?thesis by (simp add: digitsOf_def radixOf_def)
  next
    case (Cons x r)
    with rest have x: "\<not> isDigit x" by simp
    then have "x \<noteq> 48" by (auto simp: isDigit_def)
    then have "radixOf rest = 10" by (simp add: radixOf_def Cons)
    with x show ?thesis by (simp add: digitsOf_def isRadixDigit_def Cons)
  qed
  have d: "dropWhile isWhiteSpace (ws @ sg @ rest) = sg @ rest"
  proof (cases "sg @ rest")
    case Nil
    with ws show ?thesis by simp
  next
    case (Cons h t)
    with sg rest s have "\<not> isWhiteSpace h" by (cases rest) auto
    with ws Cons have "dropWhile isWhiteSpace (ws @ h # t) = h # t"
      by (simp add: dropWhile_append3)
    with Cons show ?thesis by simp
  qed
  have "unsignedPart (ws @ sg @ rest)
      = (if startsWith (sg @ rest) [45] \<or> startsWith (sg @ rest) [43]
         then tl (sg @ rest) else sg @ rest)"
    by (simp only: unsignedPart_def d)
  also have "\<dots> = rest"
    using sg rest by (cases rest) auto
  finally show ?thesis using nd by (simp add: parseInt_def)
qed

lemma numeralValue_snoc:
  "numeralValue radix (z @ [c]) = numeralValue radix z * radix + digitValue c"
  by (simp add: numeralValue_def)

lemma showNat_digits: "showNat n \<noteq> [] \<and> (\<forall>c \<in> set (showNat n). isDigit c)"
proof (induction n rule: showNat.induct)
  case (1 n)
  show ?case
  proof (cases "n < 10")
    case True
    then show ?thesis by (subst (1 2) showNat.simps) (simp add: isDigit_def)
  next
    case False
    have "n mod 10 < 10" by simp
    then have "isDigit (48 + n mod 10)" unfolding isDigit_def by linarith
    with False 1 show ?thesis by (subst (1 2) showNat.simps) auto
  qed
qed

lemma numeralValue_showNat: "numeralValue 10 (showNat n) = n"
proof (induction n rule: showNat.induct)
  case (1 n)
  show ?case
  proof (cases "n < 10")
    case True
    then show ?thesis
      by (subst showNat.simps) (simp add: numeralValue_def digitValue_def)
  next
    case False
    have "n mod 10 < 10" by simp
    then have "digitValue (48 + n mod 10) = n mod 10" by (simp add: digitValue_def)
    with False 1 show ?thesis
      by (subst showNat.simps) (simp add: numeralValue_snoc)
  qed
qed

lemma digits_no_colon: "\<forall>c \<in> set ds. isDigit c \<Longrightarrow> 58 \<notin> set ds"
  by (auto simp: isDigit_def)

text \<open>
  Claim C5, as the code has it. The identifier is cut at its last colon. Without a colon
  the decoding fails. An integer written in decimal behind the last colon is decoded,
  with the part before the colon as the path: the numeral of any integer \<open>i\<close>, also of
  zero and of a negative one, and more generally any run of decimal digits behind an
  optional sign. The decoding fails again when the part behind the last colon does not
  begin with a numeral: when, behind optional white space and an optional sign, it ends
  or goes on with something that is no digit. The line number is the double nearest to
  the integer, which up to \<open>2^53\<close> is the integer itself.
\<close>

theorem parseTaskId_decodes:
  "(58 \<notin> set tid \<longrightarrow> parseTaskId tid = Inl (InvalidTaskIdFormat tid)) \<and>
   parseTaskId (path @ 58 # showInt i) = Inr (path, toNumber i) \<and>
   (ds \<noteq> [] \<and> (\<forall>c \<in> set ds. isDigit c) \<longrightarrow>
      parseTaskId (path @ 58 # ds) = Inr (path, toNumber (int (numeralValue 10 ds))) \<and>
      parseTaskId (path @ 58 # 43 # ds) = Inr (path, toNumber (int (numeralValue 10 ds))) \<and>
      parseTaskId (path @ 58 # 45 # ds) = Inr (path, toNumber (- int (numeralValue 10 ds)))) \<and>
   (58 \<notin> set (ws @ sg @ rest) \<and> (\<forall>c \<in> set ws. isWhiteSpace c)
      \<and> (sg = [] \<or> sg = [43] \<or> sg = [45])
      \<and> (rest = [] \<or> (\<not> isDigit (hd rest)
            \<and> (sg = [] \<longrightarrow> hd rest \<noteq> 43 \<and> hd rest \<noteq> 45 \<and> \<not> isWhiteSpace (hd rest)))) \<longrightarrow>
      parseTaskId (path @ 58 # ws @ sg @ rest)
        = Inl (InvalidLineNumberInTaskId (path @ 58 # ws @ sg @ rest))) \<and>
   (\<bar>i\<bar> \<le> 2 ^ 53 \<longrightarrow> toNumber i = Num i)"
proof (intro conjI impI)
  assume "58 \<notin> set tid"
  then show "parseTaskId tid = Inl (InvalidTaskIdFormat tid)"
    by (simp add: parseTaskId_def lastIndexOf_None)
next
  let ?ds = "showNat (nat \<bar>i\<bar>)"
  have d: "?ds \<noteq> []" "\<forall>c \<in> set ?ds. isDigit c" using showNat_digits by blast+
  have c: "58 \<notin> set ?ds" by (rule digits_no_colon [OF d(2)])
  show "parseTaskId (path @ 58 # showInt i) = Inr (path, toNumber i)"
  proof (cases "i < 0")
    case True
    then have s: "showInt i = 45 # ?ds" by (simp add: showInt_def)
    have "parseInt (45 # ?ds) = Some (toNumber (- int (numeralValue 10 ?ds)))"
      by (rule parseInt_decimal(3) [OF d])
    with True have "parseInt (45 # ?ds) = Some (toNumber i)"
      by (simp add: numeralValue_showNat)
    with c show ?thesis
      using lastIndexOf_append [of 58 "45 # ?ds" path] by (simp add: parseTaskId_def s)
  next
    case False
    then have s: "showInt i = ?ds" by (simp add: showInt_def)
    have "parseInt ?ds = Some (toNumber (int (numeralValue 10 ?ds)))"
      by (rule parseInt_decimal(1) [OF d])
    with False have "parseInt ?ds = Some (toNumber i)"
      by (simp add: numeralValue_showNat)
    with c show ?thesis
      using lastIndexOf_append [of 58 ?ds path] by (simp add: parseTaskId_def s)
  qed
next
  assume a: "ds \<noteq> [] \<and> (\<forall>c \<in> set ds. isDigit c)"
  then have d: "ds \<noteq> []" "\<forall>c \<in> set ds. isDigit c" by simp_all
  have c: "58 \<notin> set ds" by (rule digits_no_colon [OF d(2)])
  from c show "parseTaskId (path @ 58 # ds) = Inr (path, toNumber (int (numeralValue 10 ds)))"
    using lastIndexOf_append [of 58 ds path]
    by (simp add: parseTaskId_def parseInt_decimal(1) [OF d])
  from c show "parseTaskId (path @ 58 # 43 # ds)
      = Inr (path, toNumber (int (numeralValue 10 ds)))"
    using lastIndexOf_append [of 58 "43 # ds" path]
    by (simp add: parseTaskId_def parseInt_decimal(2) [OF d])
  from c show "parseTaskId (path @ 58 # 45 # ds)
      = Inr (path, toNumber (- int (numeralValue 10 ds)))"
    using lastIndexOf_append [of 58 "45 # ds" path]
    by (simp add: parseTaskId_def parseInt_decimal(3) [OF d])
next
  assume a: "58 \<notin> set (ws @ sg @ rest) \<and> (\<forall>c \<in> set ws. isWhiteSpace c)
      \<and> (sg = [] \<or> sg = [43] \<or> sg = [45])
      \<and> (rest = [] \<or> (\<not> isDigit (hd rest)
            \<and> (sg = [] \<longrightarrow> hd rest \<noteq> 43 \<and> hd rest \<noteq> 45 \<and> \<not> isWhiteSpace (hd rest))))"
  then have "parseInt (ws @ sg @ rest) = None" by (intro parseInt_NaN) simp_all
  moreover from a have "lastIndexOf (path @ 58 # ws @ sg @ rest) 58 = Some (length path)"
    by (intro lastIndexOf_append) simp
  ultimately show "parseTaskId (path @ 58 # ws @ sg @ rest)
      = Inl (InvalidLineNumberInTaskId (path @ 58 # ws @ sg @ rest))"
    by (simp add: parseTaskId_def)
next
  assume "\<bar>i\<bar> \<le> 2 ^ 53"
  then show "toNumber i = Num i" by (rule toNumber_exact)
qed

lemmas codec_defs = parseTaskId_def lastIndexOf_def parseInt_def unsignedPart_def
  isNegative_def radixOf_def digitsOf_def isRadixDigit_def digitValue_def numeralValue_def
  isDigit_def isWhiteSpace_def ustr_def

theorem parseTaskId_decodes_witness:
  "parseTaskId (ustr ''a.md'') = Inl (InvalidTaskIdFormat (ustr ''a.md'')) \<and>
   parseTaskId (ustr ''notes/a:b.md:12'') = Inr (ustr ''notes/a:b.md'', Num 12) \<and>
   parseTaskId (ustr ''a.md:007'') = Inr (ustr ''a.md'', Num 7) \<and>
   parseTaskId (ustr ''a.md:+007'') = Inr (ustr ''a.md'', Num 7) \<and>
   parseTaskId (ustr ''a.md:-007'') = Inr (ustr ''a.md'', Num (- 7)) \<and>
   parseTaskId (ustr ''a.md: -x1'') = Inl (InvalidLineNumberInTaskId (ustr ''a.md: -x1''))"
proof -
  have s: "showInt 12 = ustr ''12''"
    by (simp add: showInt_def showNat.simps ustr_def)
  have n: "numeralValue 10 (ustr ''007'') = 7"
    by (simp add: numeralValue_def digitValue_def ustr_def)
  have e: "toNumber 12 = Num 12" "toNumber 7 = Num 7" "toNumber (- 7) = Num (- 7)"
    by (simp_all add: toNumber_exact)
  from parseTaskId_decodes [of "ustr ''a.md''" "ustr ''notes/a:b.md''" 12 "ustr ''007''"
      "[32]" "[45]" "ustr ''x1''"]
    parseTaskId_decodes [of "[]" "ustr ''a.md''" 7 "ustr ''007''" "[32]" "[45]" "ustr ''x1''"]
  show ?thesis
    by (simp add: s n e) (simp add: ustr_def isDigit_def isWhiteSpace_def)
qed

text \<open>
  The decoding accepts a zero and a negative numeral: whether a line number is positive
  is not the codec's question but that of the range check in each operation.
\<close>

theorem parseTaskId_lenient:
  "parseTaskId (ustr ''a.md:0'') = Inr (ustr ''a.md'', Num 0) \<and>
   parseTaskId (ustr ''a.md:-5'') = Inr (ustr ''a.md'', Num (- 5))"
  by (simp add: codec_defs toNumber_exact)

text \<open>
  What the statement above leaves aside. A numeral followed by other text is decoded as
  well: \<open>parseInt\<close> reads the numeral in front, in radix 16 behind \<open>0x\<close>, and the test
  for NaN in \<open>parseTaskId\<close>, which is there to reject a part that is no number, does not
  see what follows. And a numeral of more than 53 bits is rounded.
\<close>

lemma parseTaskId_trailing_text:
  "parseTaskId (ustr ''a.md:12abc'') = Inr (ustr ''a.md'', Num 12) \<and>
   parseTaskId (ustr ''a.md:3.7'') = Inr (ustr ''a.md'', Num 3) \<and>
   parseTaskId (ustr ''a.md:0x1f'') = Inr (ustr ''a.md'', Num 31)"
  by (simp add: codec_defs toNumber_exact)

lemma parseTaskId_rounds:
  "parseTaskId (ustr ''a.md:9007199254740993'') = Inr (ustr ''a.md'', Num 9007199254740992)"
proof -
  have "bitLength 9007199254740993 = 54" by (simp add: bitLength.simps)
  then have "toNumber 9007199254740993 = Num 9007199254740992"
    by (simp add: toNumber_def roundToDouble_def Let_def)
  then show ?thesis by (simp add: codec_defs)
qed

definition vault1 :: vault where
  "vault1 = (\<lambda>p. if p = ustr ''a.md'' then Some (TFile (ustr ''- [ ] x'')) else None)"

lemmas op_defs = toggle_task_def update_task_def remove_task_def resolveAddress_def
  addressByPath_def readLines_def outOfRange_def updateTaskInFile_def
  removeTaskFromFile_def

text \<open>
  Claim C8 at the line number 0. Given as the argument \<open>lineNumber\<close> next to the path
  of an existing file, it counts as absent, and each of the three operations answers
  that an address is required; given inside a task identifier it is an invalid line
  number.
\<close>

theorem line_zero_argument:
  "toggle_task None vault1
      \<lparr>taskId = None, filePathArg = Some (ustr ''a.md''), lineNumberArg = Some 0\<rparr>
     = (Inl AddressRequired, vault1) \<and>
   update_task vault1
      \<lparr>taskId = None, filePathArg = Some (ustr ''a.md''), lineNumberArg = Some 0\<rparr> noOverrides
     = (Inl AddressRequired, vault1) \<and>
   remove_task vault1
      \<lparr>taskId = None, filePathArg = Some (ustr ''a.md''), lineNumberArg = Some 0\<rparr>
     = (Inl AddressRequired, vault1) \<and>
   toggle_task None vault1
      \<lparr>taskId = Some (ustr ''a.md:0''), filePathArg = None, lineNumberArg = None\<rparr>
     = (Inl (InvalidLineNumber (Num 0)), vault1)"
  by (simp add: op_defs codec_defs toNumber_exact vault1_def split.simps)

text \<open>
  What holds of claim C8: a line number one beyond the last line, and the line number 0
  once it has been resolved, are rejected as invalid, and the vault stays as it is.
\<close>

lemma beyond_last_line_rejected:
  assumes "readLines v path = Some lines"
    and "resolveAddress a = Inr (path, Num (int (length lines) + 1))"
  shows "toggle_task api v a = (Inl (InvalidLineNumber (Num (int (length lines) + 1))), v)"
    and "update_task v a args = (Inl (InvalidLineNumber (Num (int (length lines) + 1))), v)"
    and "remove_task v a
           = (Inl (InvalidLineNumberOfFile (Num (int (length lines) + 1)) (length lines)), v)"
  using assms
  by (simp_all add: toggle_task_def update_task_def remove_task_def removeTaskFromFile_def
      outOfRange_def)

lemma line_zero_rejected:
  assumes "readLines v path = Some lines"
    and "resolveAddress a = Inr (path, Num 0)"
  shows "toggle_task api v a = (Inl (InvalidLineNumber (Num 0)), v)"
    and "update_task v a args = (Inl (InvalidLineNumber (Num 0)), v)"
    and "remove_task v a = (Inl (InvalidLineNumberOfFile (Num 0) (length lines)), v)"
  using assms
  by (simp_all add: toggle_task_def update_task_def remove_task_def removeTaskFromFile_def
      outOfRange_def)

section \<open>Properties of the markdown builder\<close>

subsection \<open>Scanning past text without glyphs\<close>

lemma dateRegex_free: "\<forall>c \<in> set y. \<not> g c \<Longrightarrow> dateRegex g (y @ z) = dateRegex g z"
  by (induction y) auto

lemma dateRegex_None: "\<forall>c \<in> set z. \<not> g c \<Longrightarrow> dateRegex g z = None"
  by (induction z) auto

lemma removeDates_free: "\<forall>c \<in> set y. \<not> g c \<Longrightarrow> removeDates g (y @ z) = y @ removeDates g z"
  by (induction y) auto

lemma removeDates_id: "\<forall>c \<in> set z. \<not> g c \<Longrightarrow> removeDates g z = z"
  by (induction z) auto

lemma recurrenceRegex_free:
  "glyphRecurrence \<notin> set y \<Longrightarrow> recurrenceRegex (y @ z) = recurrenceRegex z"
  by (induction y) auto

lemma recurrenceRegex_None: "glyphRecurrence \<notin> set z \<Longrightarrow> recurrenceRegex z = None"
  by (induction z) auto

lemma removeRecurrence_free:
  "glyphRecurrence \<notin> set y \<Longrightarrow> removeRecurrence (y @ z) = y @ removeRecurrence z"
  by (induction y) auto

lemma removeRecurrence_id: "glyphRecurrence \<notin> set z \<Longrightarrow> removeRecurrence z = z"
  by (induction z) auto

lemma priorityRegex_free:
  "\<forall>c \<in> set y. \<not> isPriorityGlyph c \<Longrightarrow> priorityRegex (y @ z) = priorityRegex z"
  by (induction y) (auto simp: isPriorityGlyph_def)

lemma priorityRegex_None: "\<forall>c \<in> set z. \<not> isPriorityGlyph c \<Longrightarrow> priorityRegex z = None"
  by (induction z) (auto simp: isPriorityGlyph_def)

lemma hashTagsRegex_free:
  "35 \<notin> set y \<Longrightarrow> y \<noteq> [] \<Longrightarrow> \<not> startsWith z [35]
     \<Longrightarrow> hashTagsRegex b (y @ z) = hashTagsRegex False z"
proof (induction y arbitrary: b)
  case Nil
  then show ?case by simp
next
  case (Cons c cs)
  show ?case
  proof (cases "cs = []")
    case True
    with Cons.prems show ?thesis by simp
  next
    case False
    then obtain c' cs' where cs: "cs = c' # cs'" by (cases cs) auto
    with Cons.prems have "hashTagsRegex b ((c # cs) @ z) = hashTagsRegex False (cs @ z)"
      by auto
    also have "\<dots> = hashTagsRegex False z"
      using Cons.prems False by (intro Cons.IH) auto
    finally show ?thesis .
  qed
qed

lemma removeTags_free:
  "35 \<notin> set y \<Longrightarrow> y \<noteq> [] \<Longrightarrow> \<not> startsWith z [35]
     \<Longrightarrow> removeTags b (y @ z) = y @ removeTags False z"
proof (induction y arbitrary: b)
  case Nil
  then show ?case by simp
next
  case (Cons c cs)
  show ?case
  proof (cases "cs = []")
    case True
    with Cons.prems show ?thesis by simp
  next
    case False
    then obtain c' cs' where cs: "cs = c' # cs'" by (cases cs) auto
    with Cons.prems have "removeTags b ((c # cs) @ z) = c # removeTags False (cs @ z)"
      by auto
    also have "removeTags False (cs @ z) = cs @ removeTags False z"
      using Cons.prems False by (intro Cons.IH) auto
    finally show ?thesis by simp
  qed
qed

lemma isDateChar_token: "isDateChar c \<Longrightarrow> isTokenChar c"
  by (auto simp: isDateChar_def isDigit_def isTokenChar_def isPlainChar_def isMetadataGlyph_def
      isDueGlyph_def isPriorityGlyph_def isLineTerminator_def isWhiteSpace_def glyph_defs)

lemma isDate_token: "isDate x \<Longrightarrow> c \<in> set x \<Longrightarrow> isTokenChar c"
  by (blast dest: isDate_chars isDateChar_token)

lemma space_plain: "isPlainChar 32" "isWhiteSpace 32" "\<not> isLineTerminator 32"
  by (simp_all add: isPlainChar_def isMetadataGlyph_def isDueGlyph_def isPriorityGlyph_def
      isLineTerminator_def isWhiteSpace_def glyph_defs)

lemma glyph_not_ws: "isMetadataGlyph c \<Longrightarrow> \<not> isWhiteSpace c"
  by (auto simp: isMetadataGlyph_def isDueGlyph_def isPriorityGlyph_def isWhiteSpace_def
      glyph_defs)

lemma formatTag_dropHash: "formatTag t = 35 # dropHash t"
  by (cases t) (auto simp: formatTag_def)

lemma joinWith_concat_sep:
  "xs \<noteq> [] \<Longrightarrow> sep @ joinWith sep xs = concat (map (\<lambda>x. sep @ x) xs)"
  by (induction sep xs rule: joinWith.induct) auto

lemma joinWith_concat: "xs \<noteq> [] \<Longrightarrow> 32 # joinWith [32] xs = concat (map (\<lambda>x. 32 # x) xs)"
  using joinWith_concat_sep [of xs "[32]"] by simp

lemma tagsSuffix_concat: "tagsSuffix (Some ts) = concat (map (\<lambda>t. 32 # 35 # dropHash t) ts)"
proof (cases "ts = []")
  case True
  then show ?thesis by (simp add: tagsSuffix_def)
next
  case False
  then have "tagsSuffix (Some ts) = concat (map (\<lambda>x. 32 # x) (map formatTag ts))"
    by (simp add: tagsSuffix_def joinWith_concat)
  then show ?thesis by (simp add: o_def formatTag_dropHash)
qed

text \<open>Which characters a piece of the built line consists of.\<close>

lemma prioritySuffix_cases:
  assumes "\<forall>name. p = Some name \<longrightarrow> isPriorityName name"
  shows "prioritySuffix p = [] \<or> prioritySuffix p = [32, glyphHigh, glyphHigh]
      \<or> prioritySuffix p = [32, glyphHigh] \<or> prioritySuffix p = [32, glyphMedium]
      \<or> prioritySuffix p = [32, glyphLow] \<or> prioritySuffix p = [32, glyphLowest]"
proof (cases p)
  case None
  then show ?thesis by (simp add: prioritySuffix_def)
next
  case (Some name)
  with assms have "isPriorityName name" by simp
  then have "name = ustr ''highest'' \<or> name = ustr ''high'' \<or> name = ustr ''medium''
      \<or> name = ustr ''low'' \<or> name = ustr ''lowest''"
    by (simp add: isPriorityName_def)
  then show ?thesis
    by (auto simp: Some prioritySuffix_def priorityEmojis_def ustr_def)
qed

lemma set_prioritySuffix:
  assumes "\<forall>name. p = Some name \<longrightarrow> isPriorityName name"
  shows "c \<in> set (prioritySuffix p) \<Longrightarrow> c = 32 \<or> isPriorityGlyph c"
  using prioritySuffix_cases [OF assms] by (auto simp: isPriorityGlyph_def)

lemma set_fieldSuffix:
  "c \<in> set (fieldSuffix g v) \<Longrightarrow> c = 32 \<or> c = g \<or> (\<exists>x. v = Some x \<and> c \<in> set x)"
  by (auto simp: fieldSuffix_def split: option.splits if_splits)

lemma set_tagsSuffix:
  "c \<in> set (tagsSuffix ts) \<Longrightarrow>
     c = 32 \<or> c = 35 \<or> (\<exists>l t. ts = Some l \<and> t \<in> set l \<and> c \<in> set (dropHash t))"
proof (cases ts)
  case None
  assume "c \<in> set (tagsSuffix ts)"
  with None show ?thesis by (simp add: tagsSuffix_def)
next
  case (Some l)
  assume "c \<in> set (tagsSuffix ts)"
  with Some show ?thesis by (auto simp: tagsSuffix_concat split: if_splits)
qed

definition startsSpace :: "ustring \<Rightarrow> bool" where
  "startsSpace z \<longleftrightarrow> z = [] \<or> hd z = 32"

definition endsNonWs :: "ustring \<Rightarrow> bool" where
  "endsNonWs z \<longleftrightarrow> z = [] \<or> \<not> isWhiteSpace (last z)"

lemma startsSpace_append: "startsSpace a \<Longrightarrow> startsSpace b \<Longrightarrow> startsSpace (a @ b)"
  by (cases a) (auto simp: startsSpace_def)

lemma endsNonWs_append: "endsNonWs a \<Longrightarrow> endsNonWs b \<Longrightarrow> endsNonWs (a @ b)"
  by (cases "b = []") (auto simp: endsNonWs_def)

lemma startsSpace_prioritySuffix: "startsSpace (prioritySuffix p)"
  by (auto simp: startsSpace_def prioritySuffix_def split: option.splits)

lemma startsSpace_fieldSuffix: "startsSpace (fieldSuffix g v)"
  by (auto simp: startsSpace_def fieldSuffix_def split: option.splits)

lemma startsSpace_tagsSuffix: "startsSpace (tagsSuffix ts)"
  by (auto simp: startsSpace_def tagsSuffix_def split: option.splits)

lemma endsNonWs_prioritySuffix:
  assumes "\<forall>name. p = Some name \<longrightarrow> isPriorityName name"
  shows "endsNonWs (prioritySuffix p)"
  using prioritySuffix_cases [OF assms]
  by (auto simp: endsNonWs_def isWhiteSpace_def glyph_defs)

lemma endsNonWs_fieldSuffix:
  "(\<forall>x. v = Some x \<longrightarrow> (\<forall>c \<in> set x. \<not> isWhiteSpace c)) \<Longrightarrow> endsNonWs (fieldSuffix g v)"
  by (auto simp: endsNonWs_def fieldSuffix_def split: option.splits)

lemma endsNonWs_tagsSuffix:
  assumes "\<forall>l t. ts = Some l \<longrightarrow> t \<in> set l \<longrightarrow>
             dropHash t \<noteq> [] \<and> (\<forall>c \<in> set (dropHash t). \<not> isWhiteSpace c)"
  shows "endsNonWs (tagsSuffix ts)"
proof (cases ts)
  case None
  then show ?thesis by (simp add: endsNonWs_def tagsSuffix_def)
next
  case (Some l)
  show ?thesis
  proof (cases l rule: rev_cases)
    case Nil
    with Some show ?thesis by (simp add: endsNonWs_def tagsSuffix_def)
  next
    case (snoc l' t)
    with Some assms have "dropHash t \<noteq> []" "\<forall>c \<in> set (dropHash t). \<not> isWhiteSpace c"
      by auto
    then have "\<not> isWhiteSpace (last (dropHash t))" by simp
    with \<open>dropHash t \<noteq> []\<close> Some snoc show ?thesis
      by (simp add: endsNonWs_def tagsSuffix_concat)
  qed
qed

definition gapOf :: "ustring \<Rightarrow> ustring" where
  "gapOf piece = (if piece = [] then [] else [32])"

lemma takeWhile_run:
  "\<forall>c \<in> set x. P c \<Longrightarrow> z = [] \<or> \<not> P (hd z) \<Longrightarrow> takeWhile P (x @ z) = x"
  by (cases z) (auto simp: takeWhile_append2)

lemma dropWhile_run:
  "\<forall>c \<in> set x. P c \<Longrightarrow> z = [] \<or> \<not> P (hd z) \<Longrightarrow> dropWhile P (x @ z) = z"
  by (cases z) (auto simp: dropWhile_append2)

lemma date_piece:
  assumes y: "\<forall>c \<in> set y. \<not> g c" and z: "\<forall>c \<in> set z. \<not> g c"
    and g: "g gl" "\<not> g 32" and v: "okDate v"
  shows "fieldSuffix gl (dateRegex g (y @ fieldSuffix gl v @ z)) = fieldSuffix gl v"
    and "removeDates g (y @ fieldSuffix gl v @ z) = y @ gapOf (fieldSuffix gl v) @ z"
proof -
  show "fieldSuffix gl (dateRegex g (y @ fieldSuffix gl v @ z)) = fieldSuffix gl v"
  proof (cases "fieldSuffix gl v = []")
    case True
    with y z have "dateRegex g (y @ fieldSuffix gl v @ z) = None"
      by (intro dateRegex_None) auto
    with True show ?thesis by (simp add: fieldSuffix_def)
  next
    case False
    then obtain x where x: "v = Some x" "x \<noteq> []" "fieldSuffix gl v = [32, gl, 32] @ x"
      by (auto simp: fieldSuffix_def split: option.splits if_splits)
    with v have d: "isDate x" by (simp add: okDate_def)
    have o: "optWsDate ([32] @ x @ z) = Some x"
      by (rule optWsDate_here [OF d]) (simp add: isWhiteSpace_def)
    have "dateRegex g ((y @ [32]) @ gl # 32 # x @ z) = dateRegex g (gl # 32 # x @ z)"
      using y g by (intro dateRegex_free) auto
    also have "\<dots> = Some x" using o g by simp
    finally show ?thesis using x by simp
  qed
  show "removeDates g (y @ fieldSuffix gl v @ z) = y @ gapOf (fieldSuffix gl v) @ z"
  proof (cases "fieldSuffix gl v = []")
    case True
    from y z have "removeDates g (y @ z) = y @ z"
      by (intro removeDates_id) auto
    with True show ?thesis by (simp add: gapOf_def)
  next
    case False
    then obtain x where x: "v = Some x" "x \<noteq> []" "fieldSuffix gl v = [32, gl, 32] @ x"
      by (auto simp: fieldSuffix_def split: option.splits if_splits)
    with v have d: "isDate x" by (simp add: okDate_def)
    then have len: "length x = 10" by (simp add: isDate_chars)
    have o: "optWsDate ([32] @ x @ z) = Some x"
      by (rule optWsDate_here [OF d]) (simp add: isWhiteSpace_def)
    have "removeDates g ((y @ [32]) @ gl # 32 # x @ z)
            = (y @ [32]) @ removeDates g (gl # 32 # x @ z)"
      using y g by (intro removeDates_free) auto
    also have "removeDates g (gl # 32 # x @ z) = removeDates g z"
      using o g len by (simp add: isWhiteSpace_def)
    also have "\<dots> = z" using z by (rule removeDates_id)
    finally show ?thesis using x by (simp add: gapOf_def)
  qed
qed

lemma recurrence_piece:
  assumes y: "glyphRecurrence \<notin> set y" and z: "glyphRecurrence \<notin> set z" "startsSpace z"
    and v: "\<forall>r. v = Some r \<longrightarrow> (\<forall>c \<in> set r. isTokenChar c)"
  shows "fieldSuffix glyphRecurrence
           (recurrenceRegex (y @ fieldSuffix glyphRecurrence v @ z))
         = fieldSuffix glyphRecurrence v"
    and "removeRecurrence (y @ fieldSuffix glyphRecurrence v @ z)
         = y @ gapOf (fieldSuffix glyphRecurrence v) @ z"
proof -
  have zw: "z = [] \<or> \<not> (\<lambda>c. \<not> isWhiteSpace c) (hd z)"
    using z(2) by (auto simp: startsSpace_def isWhiteSpace_def)
  show "fieldSuffix glyphRecurrence
           (recurrenceRegex (y @ fieldSuffix glyphRecurrence v @ z))
         = fieldSuffix glyphRecurrence v"
  proof (cases "fieldSuffix glyphRecurrence v = []")
    case True
    with y z have "recurrenceRegex (y @ fieldSuffix glyphRecurrence v @ z) = None"
      by (intro recurrenceRegex_None) auto
    with True show ?thesis by (simp add: fieldSuffix_def)
  next
    case False
    then obtain r where r: "v = Some r" "r \<noteq> []"
        "fieldSuffix glyphRecurrence v = [32, glyphRecurrence, 32] @ r"
      by (auto simp: fieldSuffix_def split: option.splits if_splits)
    with v have tok: "\<forall>c \<in> set r. \<not> isWhiteSpace c" by (auto simp: isTokenChar_def)
    have "glyphRecurrence \<notin> set (y @ [32])" using y by (simp add: glyph_defs)
    then have "recurrenceRegex ((y @ [32]) @ glyphRecurrence # 32 # r @ z)
        = Some (takeWhile (\<lambda>x. \<not> isWhiteSpace x) (dropOptWs (32 # r @ z)))"
      by (rule recurrenceRegex_first)
    also have "dropOptWs (32 # r @ z) = r @ z" by (simp add: isWhiteSpace_def)
    also have "takeWhile (\<lambda>x. \<not> isWhiteSpace x) (r @ z) = r"
      using tok zw by (rule takeWhile_run)
    finally show ?thesis using r by simp
  qed
  show "removeRecurrence (y @ fieldSuffix glyphRecurrence v @ z)
         = y @ gapOf (fieldSuffix glyphRecurrence v) @ z"
  proof (cases "fieldSuffix glyphRecurrence v = []")
    case True
    from y z have "removeRecurrence (y @ z) = y @ z"
      by (intro removeRecurrence_id) auto
    with True show ?thesis by (simp add: gapOf_def)
  next
    case False
    then obtain r where r: "v = Some r" "r \<noteq> []"
        "fieldSuffix glyphRecurrence v = [32, glyphRecurrence, 32] @ r"
      by (auto simp: fieldSuffix_def split: option.splits if_splits)
    with v have tok: "\<forall>c \<in> set r. \<not> isWhiteSpace c" by (auto simp: isTokenChar_def)
    have "glyphRecurrence \<notin> set (y @ [32])" using y by (simp add: glyph_defs)
    then have "removeRecurrence ((y @ [32]) @ glyphRecurrence # 32 # r @ z)
        = (y @ [32]) @ removeRecurrence (glyphRecurrence # 32 # r @ z)"
      by (rule removeRecurrence_free)
    also have "removeRecurrence (glyphRecurrence # 32 # r @ z)
        = removeRecurrence (dropWhile (\<lambda>x. \<not> isWhiteSpace x) (r @ z))"
      by (simp add: isWhiteSpace_def)
    also have "dropWhile (\<lambda>x. \<not> isWhiteSpace x) (r @ z) = z"
      using tok zw by (rule dropWhile_run)
    also have "removeRecurrence z = z" using z(1) by (rule removeRecurrence_id)
    finally show ?thesis using r by (simp add: gapOf_def)
  qed
qed

lemma removePriority_id: "\<forall>c \<in> set z. \<not> isPriorityGlyph c \<Longrightarrow> removePriority z = z"
  by (simp add: removePriority_def)

lemma priority_piece:
  assumes y: "\<forall>c \<in> set y. \<not> isPriorityGlyph c" and z: "\<forall>c \<in> set z. \<not> isPriorityGlyph c"
    and p: "\<forall>name. p = Some name \<longrightarrow> isPriorityName name"
  shows "prioritySuffix (map_option priorityName (priorityRegex (y @ prioritySuffix p @ z)))
         = prioritySuffix p"
    and "removePriority (y @ prioritySuffix p @ z) = y @ gapOf (prioritySuffix p) @ z"
proof -
  have sp: "\<not> isPriorityGlyph 32" by (simp add: isPriorityGlyph_def glyph_defs)
  have zh: "\<not> startsWith z [glyphHigh]"
    using z by (cases z) (auto simp: isPriorityGlyph_def)
  have skip: "priorityRegex (y @ 32 # w) = priorityRegex w" for w
    using priorityRegex_free [of "y @ [32]" w] y sp by simp
  have rem: "removePriority (y @ 32 # w @ z) = y @ 32 # z"
    if "\<forall>c \<in> set w. isPriorityGlyph c" for w
    using that y z sp by (simp add: removePriority_def)
  show "prioritySuffix (map_option priorityName (priorityRegex (y @ prioritySuffix p @ z)))
         = prioritySuffix p"
  proof (cases p)
    case None
    from y z have "priorityRegex (y @ z) = None"
      by (intro priorityRegex_None) auto
    with None show ?thesis by (simp add: prioritySuffix_def)
  next
    case (Some name)
    with p have "name = ustr ''highest'' \<or> name = ustr ''high'' \<or> name = ustr ''medium''
        \<or> name = ustr ''low'' \<or> name = ustr ''lowest''"
      by (simp add: isPriorityName_def)
    then obtain gs where gs: "priorityEmojis name = Some gs"
      and cases: "(name = ustr ''highest'' \<and> gs = [glyphHigh, glyphHigh])
        \<or> (name = ustr ''high'' \<and> gs = [glyphHigh])
        \<or> (name = ustr ''medium'' \<and> gs = [glyphMedium])
        \<or> (name = ustr ''low'' \<and> gs = [glyphLow])
        \<or> (name = ustr ''lowest'' \<and> gs = [glyphLowest])"
      by (auto simp: priorityEmojis_def ustr_def)
    from cases have ne: "name \<noteq> []" by (auto simp: ustr_def)
    have ps: "prioritySuffix p = 32 # gs" using Some gs ne by (simp add: prioritySuffix_def)
    have m: "map_option priorityName (priorityRegex (gs @ z)) = Some name"
      using cases zh by (auto simp: glyph_defs)
    have "priorityRegex (y @ prioritySuffix p @ z) = priorityRegex (gs @ z)"
      using ps skip [of "gs @ z"] by simp
    then have "prioritySuffix (map_option priorityName
          (priorityRegex (y @ prioritySuffix p @ z)))
        = prioritySuffix (map_option priorityName (priorityRegex (gs @ z)))"
      by (simp only:)
    also have "\<dots> = prioritySuffix (Some name)" by (simp only: m)
    finally show ?thesis by (simp only: Some)
  qed
  show "removePriority (y @ prioritySuffix p @ z) = y @ gapOf (prioritySuffix p) @ z"
  proof (cases "prioritySuffix p = []")
    case True
    with y z show ?thesis by (simp add: removePriority_def gapOf_def)
  next
    case False
    with prioritySuffix_cases [OF p]
    obtain gs where "prioritySuffix p = 32 # gs" "\<forall>c \<in> set gs. isPriorityGlyph c"
      by (auto simp: isPriorityGlyph_def)
    with rem [of gs] show ?thesis by (simp add: gapOf_def)
  qed
qed

lemma trim_id: "s \<noteq> [] \<Longrightarrow> \<not> isWhiteSpace (hd s) \<Longrightarrow> \<not> isWhiteSpace (last s) \<Longrightarrow> trim s = s"
proof -
  assume a: "s \<noteq> []" "\<not> isWhiteSpace (hd s)" "\<not> isWhiteSpace (last s)"
  then have 1: "dropWhile isWhiteSpace s = s" by (cases s) auto
  from a have "rev s \<noteq> []" "\<not> isWhiteSpace (hd (rev s))" by (simp_all add: hd_rev)
  then have "dropWhile isWhiteSpace (rev s) = rev s" by (cases "rev s") auto
  with 1 show ?thesis by (simp add: trim_def)
qed

lemma trim_spaces_behind:
  assumes "s \<noteq> []" "\<not> isWhiteSpace (hd s)" "\<not> isWhiteSpace (last s)"
    and "\<forall>c \<in> set g. isWhiteSpace c"
  shows "trim (s @ g) = s"
proof -
  from assms(1,2) have "dropWhile isWhiteSpace (s @ g) = s @ g" by (cases s) auto
  moreover have "dropWhile isWhiteSpace (rev g @ rev s) = dropWhile isWhiteSpace (rev s)"
    by (rule dropWhile_append2) (use assms(4) in auto)
  moreover have "rev (dropWhile isWhiteSpace (rev (dropWhile isWhiteSpace s))) = s"
    using trim_id [OF assms(1-3)] by (simp add: trim_def)
  moreover from assms(1,2) have "dropWhile isWhiteSpace s = s" by (cases s) auto
  ultimately show ?thesis by (simp add: trim_def)
qed

lemma trim_space_before:
  "s \<noteq> [] \<Longrightarrow> \<not> isWhiteSpace (hd s) \<Longrightarrow> \<not> isWhiteSpace (last s) \<Longrightarrow> trim (32 # s) = s"
proof -
  assume a: "s \<noteq> []" "\<not> isWhiteSpace (hd s)" "\<not> isWhiteSpace (last s)"
  have "trim (32 # s) = trim s" by (simp add: trim_def isWhiteSpace_def)
  with trim_id [OF a] show ?thesis by simp
qed

lemma taskRegex_built:
  assumes "C \<noteq> []" "hd C \<noteq> 32" "\<forall>c \<in> set C. \<not> isLineTerminator c"
  shows "taskRegex (ustr ''- [ ] '' @ C) = Some ([], [45], 32, C)"
proof -
  from assms obtain c cs where C: "C = c # cs" "c \<noteq> 32" by (cases C) auto
  have "takeWhile (\<lambda>c. \<not> isLineTerminator c) C = C"
    using assms(3) by (simp add: takeWhile_eq_all_conv)
  with C show ?thesis
    by (simp add: taskRegex_def listMarker_def isIndentChar_def isWhiteSpace_def
        isLineTerminator_def ustr_def)
qed

lemma indentMatch_built: "indentMatch (ustr ''- [ ] '' @ C) = ([], [45])"
  by (simp add: indentMatch_def listMarker_def isIndentChar_def isWhiteSpace_def ustr_def)

subsection \<open>The tags\<close>

definition tagPiece :: "ustring \<Rightarrow> ustring" where
  "tagPiece t = 32 # 35 # dropHash t"

lemma startsSpace_not_hash: "startsSpace z \<Longrightarrow> \<not> startsWith z [35]"
  by (cases z) (auto simp: startsSpace_def)

lemma startsSpace_tags: "startsSpace (concat (map tagPiece l))"
  by (cases l) (auto simp: startsSpace_def tagPiece_def)

lemma hashTagsRegex_tags:
  assumes "\<forall>t \<in> set l. dropHash t \<noteq> [] \<and> (\<forall>c \<in> set (dropHash t). isTagChar c)"
  shows "hashTagsRegex False (concat (map tagPiece l)) = map tagPiece l"
  using assms
proof (induction l)
  case Nil
  then show ?case by simp
next
  case (Cons t l)
  let ?rest = "concat (map tagPiece l)"
  have "\<not> isTagChar 32" by (simp add: isTagChar_def)
  with startsSpace_tags [of l] have r: "?rest = [] \<or> \<not> isTagChar (hd ?rest)"
    by (auto simp: startsSpace_def)
  from Cons.prems have b: "dropHash t \<noteq> []" "\<forall>c \<in> set (dropHash t). isTagChar c" by auto
  have tw: "takeWhile isTagChar (dropHash t @ ?rest) = dropHash t"
    using b(2) r by (rule takeWhile_run)
  have dw: "dropWhile isTagChar (dropHash t @ ?rest) = ?rest"
    using b(2) r by (rule dropWhile_run)
  have "hashTagsRegex False (32 # 35 # dropHash t @ ?rest)
          = (32 # 35 # dropHash t) # hashTagsRegex False ?rest"
    using tw dw b(1) by (simp add: isWhiteSpace_def)
  then have "hashTagsRegex False (tagPiece t @ ?rest) = tagPiece t # hashTagsRegex False ?rest"
    by (simp only: tagPiece_def append_Cons)
  moreover have "hashTagsRegex False ?rest = map tagPiece l"
    using Cons by simp
  ultimately show ?case by (simp del: hashTagsRegex.simps)
qed

lemma removeTags_tags:
  assumes "\<forall>t \<in> set l. dropHash t \<noteq> [] \<and> (\<forall>c \<in> set (dropHash t). \<not> isWhiteSpace c)"
  shows "removeTags False (concat (map tagPiece l)) = []"
  using assms
proof (induction l)
  case Nil
  then show ?case by simp
next
  case (Cons t l)
  let ?rest = "concat (map tagPiece l)"
  have "isWhiteSpace 32" by (simp add: isWhiteSpace_def)
  with startsSpace_tags [of l]
  have r: "?rest = [] \<or> \<not> (\<lambda>x. \<not> isWhiteSpace x) (hd ?rest)"
    by (auto simp: startsSpace_def)
  from Cons.prems have b: "dropHash t \<noteq> []" "\<forall>c \<in> set (dropHash t). \<not> isWhiteSpace c"
    by auto
  have tw: "takeWhile (\<lambda>x. \<not> isWhiteSpace x) (dropHash t @ ?rest) = dropHash t"
    using b(2) r by (rule takeWhile_run)
  have dw: "dropWhile (\<lambda>x. \<not> isWhiteSpace x) (dropHash t @ ?rest) = ?rest"
    using b(2) r by (rule dropWhile_run)
  have "removeTags False (32 # 35 # dropHash t @ ?rest) = removeTags False ?rest"
    using tw dw b(1) by (simp add: isWhiteSpace_def)
  then have "removeTags False (tagPiece t @ ?rest) = removeTags False ?rest"
    by (simp only: tagPiece_def append_Cons)
  moreover have "removeTags False ?rest = []"
    using Cons by simp
  ultimately show ?case by (simp del: removeTags.simps)
qed

definition tagList :: "ustring list option \<Rightarrow> ustring list" where
  "tagList ts = (case ts of None \<Rightarrow> [] | Some l \<Rightarrow> l)"

lemma tagsSuffix_tagList: "tagsSuffix ts = concat (map tagPiece (tagList ts))"
proof (cases ts)
  case None
  then show ?thesis by (simp add: tagsSuffix_def tagList_def)
next
  case (Some l)
  have "(\<lambda>t. 32 # 35 # dropHash t) = tagPiece" by (simp add: tagPiece_def fun_eq_iff)
  with Some show ?thesis by (simp add: tagsSuffix_concat tagList_def)
qed

lemma tagsSuffix_Some: "tagsSuffix (Some l) = concat (map tagPiece l)"
  using tagsSuffix_tagList [of "Some l"] by (simp add: tagList_def)

lemma tags_piece:
  assumes y: "35 \<notin> set y" "y \<noteq> []"
    and ok: "\<forall>t \<in> set (tagList ts). dropHash t \<noteq> []
               \<and> (\<forall>c \<in> set (dropHash t). isTagChar c \<and> \<not> isWhiteSpace c)"
  shows "tagsSuffix (Some (filter (\<lambda>tag. tag \<noteq> [])
           (map trim (hashTagsRegex b (y @ tagsSuffix ts))))) = tagsSuffix ts"
    and "removeTags b (y @ tagsSuffix ts) = y"
proof -
  let ?T = "concat (map tagPiece (tagList ts))"
  have ns: "\<not> startsWith ?T [35]"
    by (rule startsSpace_not_hash [OF startsSpace_tags])
  have h: "hashTagsRegex b (y @ ?T) = map tagPiece (tagList ts)"
    using hashTagsRegex_free [OF y ns] hashTagsRegex_tags [of "tagList ts"] ok by simp
  have tr: "trim (tagPiece t) = formatTag t" if "t \<in> set (tagList ts)" for t
  proof -
    from that ok have b: "dropHash t \<noteq> []" "\<forall>c \<in> set (dropHash t). \<not> isWhiteSpace c"
      by auto
    then have "\<not> isWhiteSpace (last (35 # dropHash t))" by simp
    moreover have "\<not> isWhiteSpace (hd (35 # dropHash t))" by (simp add: isWhiteSpace_def)
    ultimately have "trim (32 # 35 # dropHash t) = 35 # dropHash t"
      by (intro trim_space_before) simp_all
    then show ?thesis by (simp add: tagPiece_def formatTag_dropHash)
  qed
  have m: "map trim (map tagPiece (tagList ts)) = map formatTag (tagList ts)"
    using tr by simp
  have f: "filter (\<lambda>tag. tag \<noteq> []) (map formatTag (tagList ts)) = map formatTag (tagList ts)"
    by (simp add: formatTag_dropHash filter_id_conv)
  have "filter (\<lambda>tag. tag \<noteq> []) (map trim (hashTagsRegex b (y @ tagsSuffix ts)))
      = map formatTag (tagList ts)"
    by (simp only: tagsSuffix_tagList h m f)
  moreover have "tagsSuffix (Some (map formatTag (tagList ts))) = tagsSuffix ts"
  proof -
    have "tagPiece (formatTag t) = tagPiece t" for t
      by (simp add: tagPiece_def formatTag_dropHash)
    then have c: "tagPiece \<circ> formatTag = tagPiece" by (simp add: fun_eq_iff)
    have "tagsSuffix (Some (map formatTag (tagList ts)))
        = concat (map tagPiece (map formatTag (tagList ts)))"
      by (rule tagsSuffix_Some)
    also have "\<dots> = concat (map tagPiece (tagList ts))"
      by (simp only: map_map c)
    also have "\<dots> = tagsSuffix ts" by (simp only: tagsSuffix_tagList)
    finally show ?thesis .
  qed
  ultimately show "tagsSuffix (Some (filter (\<lambda>tag. tag \<noteq> [])
           (map trim (hashTagsRegex b (y @ tagsSuffix ts))))) = tagsSuffix ts" by simp
  show "removeTags b (y @ tagsSuffix ts) = y"
    using removeTags_free [OF y ns] removeTags_tags [of "tagList ts"] ok
    by (simp add: tagsSuffix_tagList)
qed

definition freeOf :: "(uchar \<Rightarrow> bool) \<Rightarrow> ustring \<Rightarrow> bool" where
  "freeOf K x \<longleftrightarrow> (\<forall>c \<in> set x. \<not> K c)"

lemma freeOf_append [simp]: "freeOf K (a @ b) \<longleftrightarrow> freeOf K a \<and> freeOf K b"
  by (auto simp: freeOf_def)

lemma freeOf_Nil [simp]: "freeOf K []"
  by (simp add: freeOf_def)

lemma okDate_token: "okDate v \<Longrightarrow> v = Some x \<Longrightarrow> c \<in> set x \<Longrightarrow> isTokenChar c"
  by (auto simp: okDate_def dest: isDate_token)

lemma freeOf_fieldSuffix:
  assumes "\<And>x c. v = Some x \<Longrightarrow> c \<in> set x \<Longrightarrow> isTokenChar c"
    and "\<not> K 32" "\<not> K g" "\<And>c. isTokenChar c \<Longrightarrow> \<not> K c"
  shows "freeOf K (fieldSuffix g v)"
  using assms unfolding freeOf_def by (blast dest!: set_fieldSuffix)

lemma freeOf_prioritySuffix:
  assumes "\<forall>name. p = Some name \<longrightarrow> isPriorityName name"
    and "\<not> K 32" "\<And>c. isPriorityGlyph c \<Longrightarrow> \<not> K c"
  shows "freeOf K (prioritySuffix p)"
  using assms(2,3) unfolding freeOf_def by (blast dest!: set_prioritySuffix [OF assms(1)])

lemma freeOf_tagsSuffix:
  assumes "\<And>l t c. ts = Some l \<Longrightarrow> t \<in> set l \<Longrightarrow> c \<in> set (dropHash t) \<Longrightarrow> isTokenChar c"
    and "\<not> K 32" "\<not> K 35" "\<And>c. isTokenChar c \<Longrightarrow> \<not> K c"
  shows "freeOf K (tagsSuffix ts)"
  using assms unfolding freeOf_def by (blast dest!: set_tagsSuffix)

lemma freeOf_gapOf: "\<not> K 32 \<Longrightarrow> freeOf K (gapOf x)"
  by (auto simp: freeOf_def gapOf_def)

lemma freeOf_plain: "\<forall>c \<in> set d. isPlainChar c \<Longrightarrow> (\<And>c. isPlainChar c \<Longrightarrow> \<not> K c) \<Longrightarrow> freeOf K d"
  by (auto simp: freeOf_def)

lemma startsSpace_gapOf: "startsSpace (gapOf x)"
  by (simp add: gapOf_def startsSpace_def)

lemma plain_kinds:
  assumes "isPlainChar c"
  shows "\<not> isLineTerminator c" "\<not> isDueGlyph c" "c \<noteq> glyphScheduled" "c \<noteq> glyphStart"
    "c \<noteq> glyphCreated" "c \<noteq> glyphRecurrence" "\<not> isPriorityGlyph c" "c \<noteq> 35"
  using assms by (simp_all add: isPlainChar_def isMetadataGlyph_def)

lemma token_kinds:
  assumes "isTokenChar c"
  shows "\<not> isLineTerminator c" "\<not> isDueGlyph c" "c \<noteq> glyphScheduled" "c \<noteq> glyphStart"
    "c \<noteq> glyphCreated" "c \<noteq> glyphRecurrence" "\<not> isPriorityGlyph c" "c \<noteq> 35"
  using assms by (simp_all add: isTokenChar_def plain_kinds)

lemma priority_kinds:
  assumes "isPriorityGlyph c"
  shows "\<not> isLineTerminator c" "\<not> isDueGlyph c" "c \<noteq> glyphScheduled" "c \<noteq> glyphStart"
    "c \<noteq> glyphCreated" "c \<noteq> glyphRecurrence" "c \<noteq> 35"
  using assms
  by (auto simp: isPriorityGlyph_def isLineTerminator_def isDueGlyph_def glyph_defs)

lemma const_kinds:
  "\<not> isLineTerminator 32" "\<not> isPriorityGlyph 32" "\<not> isDueGlyph 32"
  "32 \<noteq> glyphDue" "32 \<noteq> glyphScheduled" "32 \<noteq> glyphStart"
  "32 \<noteq> glyphCreated" "32 \<noteq> glyphRecurrence" "\<not> isLineTerminator 35"
  "\<not> isPriorityGlyph 35" "\<not> isDueGlyph 35" "35 \<noteq> glyphDue"
  "35 \<noteq> glyphScheduled" "35 \<noteq> glyphStart" "35 \<noteq> glyphCreated"
  "35 \<noteq> glyphRecurrence" "\<not> isLineTerminator glyphDue"
  "\<not> isPriorityGlyph glyphDue" "glyphDue \<noteq> 32" "glyphDue \<noteq> 35"
  "glyphDue \<noteq> glyphScheduled" "glyphDue \<noteq> glyphStart"
  "glyphDue \<noteq> glyphCreated" "glyphDue \<noteq> glyphRecurrence"
  "\<not> isLineTerminator glyphScheduled" "\<not> isPriorityGlyph glyphScheduled"
  "\<not> isDueGlyph glyphScheduled" "glyphScheduled \<noteq> 32" "glyphScheduled \<noteq> 35"
  "glyphScheduled \<noteq> glyphDue" "glyphScheduled \<noteq> glyphStart"
  "glyphScheduled \<noteq> glyphCreated" "glyphScheduled \<noteq> glyphRecurrence"
  "\<not> isLineTerminator glyphStart" "\<not> isPriorityGlyph glyphStart"
  "\<not> isDueGlyph glyphStart" "glyphStart \<noteq> 32" "glyphStart \<noteq> 35"
  "glyphStart \<noteq> glyphDue" "glyphStart \<noteq> glyphScheduled"
  "glyphStart \<noteq> glyphCreated" "glyphStart \<noteq> glyphRecurrence"
  "\<not> isLineTerminator glyphCreated" "\<not> isPriorityGlyph glyphCreated"
  "\<not> isDueGlyph glyphCreated" "glyphCreated \<noteq> 32" "glyphCreated \<noteq> 35"
  "glyphCreated \<noteq> glyphDue" "glyphCreated \<noteq> glyphScheduled"
  "glyphCreated \<noteq> glyphStart" "glyphCreated \<noteq> glyphRecurrence"
  "\<not> isLineTerminator glyphRecurrence" "\<not> isPriorityGlyph glyphRecurrence"
  "\<not> isDueGlyph glyphRecurrence" "glyphRecurrence \<noteq> 32"
  "glyphRecurrence \<noteq> 35" "glyphRecurrence \<noteq> glyphDue"
  "glyphRecurrence \<noteq> glyphScheduled" "glyphRecurrence \<noteq> glyphStart"
  "glyphRecurrence \<noteq> glyphCreated"
  by (simp_all add: isLineTerminator_def isPriorityGlyph_def isDueGlyph_def glyph_defs)

lemmas kinds = plain_kinds token_kinds priority_kinds const_kinds

lemma gapOf_chars: "c \<in> set (gapOf x) \<Longrightarrow> c = 32"
  by (auto simp: gapOf_def split: if_splits)

lemma freeOf_notin: "freeOf (\<lambda>c. c = g) y \<Longrightarrow> g \<notin> set y"
  by (auto simp: freeOf_def)

lemma freeOf_ball: "freeOf K y \<Longrightarrow> \<forall>c \<in> set y. \<not> K c"
  by (simp add: freeOf_def)

text \<open>
  Where the claim C9 holds. For a canonical field set the line that the builder writes
  is recognised by the parser, and rebuilding it with no overrides gives the same line
  again, character by character.
\<close>

theorem reserialize_canonical:
  assumes F: "canonicalArgs F"
  shows "map_option (updatedTaskMarkdown noOverrides (buildTaskMarkdown F))
           (parseTaskLine (buildTaskMarkdown F) path n)
         = Some (buildTaskMarkdown F)"
proof -
  let ?d = "bDescription F"
  let ?P = "prioritySuffix (bPriority F)"
  let ?R = "fieldSuffix glyphRecurrence (bRecurrence F)"
  let ?S1 = "fieldSuffix glyphStart (bStartDate F)"
  let ?S2 = "fieldSuffix glyphScheduled (bScheduledDate F)"
  let ?S3 = "fieldSuffix glyphDue (bDueDate F)"
  let ?T = "tagsSuffix (bTags F)"
  let ?GP = "gapOf ?P" and ?GR = "gapOf ?R" and ?G1 = "gapOf ?S1"
    and ?G2 = "gapOf ?S2" and ?G3 = "gapOf ?S3"
  let ?C = "?d @ ?P @ ?R @ ?S1 @ ?S2 @ ?S3 @ ?T"
  have build: "buildTaskMarkdown F = ustr ''- [ ] '' @ ?C"
    by (simp add: buildTaskMarkdown_def)
  from F have d: "?d \<noteq> []" "\<not> isWhiteSpace (hd ?d)" "\<not> isWhiteSpace (last ?d)"
    and cd: "\<forall>c \<in> set ?d. isPlainChar c"
    and pOK: "\<forall>name. bPriority F = Some name \<longrightarrow> isPriorityName name"
    and rOK: "\<forall>r. bRecurrence F = Some r \<longrightarrow> (\<forall>c \<in> set r. isTokenChar c)"
    and ok1: "okDate (bStartDate F)" and ok2: "okDate (bScheduledDate F)"
    and ok3: "okDate (bDueDate F)"
    and tOK: "\<forall>t \<in> set (tagList (bTags F)). dropHash t \<noteq> []
                \<and> (\<forall>c \<in> set (dropHash t). isTagChar c \<and> isTokenChar c)"
    by (auto simp: canonicalArgs_def tagList_def split: option.splits)
  have vR: "\<And>x c. bRecurrence F = Some x \<Longrightarrow> c \<in> set x \<Longrightarrow> isTokenChar c"
    using rOK by blast
  have vT: "\<And>l t c. bTags F = Some l \<Longrightarrow> t \<in> set l \<Longrightarrow> c \<in> set (dropHash t)
              \<Longrightarrow> isTokenChar c"
    using tOK by (auto simp: tagList_def)
  note fs = freeOf_plain [OF cd] freeOf_prioritySuffix [OF pOK] freeOf_fieldSuffix [OF vR]
    freeOf_fieldSuffix [OF okDate_token [OF ok1]] freeOf_fieldSuffix [OF okDate_token [OF ok2]]
    freeOf_fieldSuffix [OF okDate_token [OF ok3]] freeOf_tagsSuffix [OF vT] freeOf_gapOf

  txt \<open>The line is recognised, and its content is what was built behind the bracket.\<close>
  have "freeOf isLineTerminator ?C"
    by (simp, intro conjI fs) (simp_all add: kinds)
  then have noLT: "\<forall>c \<in> set ?C. \<not> isLineTerminator c" by (rule freeOf_ball)
  have "?C \<noteq> []" "hd ?C \<noteq> 32" using d by (auto simp: isWhiteSpace_def)
  then have tr: "taskRegex (buildTaskMarkdown F) = Some ([], [45], 32, ?C)"
    unfolding build using noLT by (rule taskRegex_built)
  have "endsNonWs (?P @ ?R @ ?S1 @ ?S2 @ ?S3 @ ?T)"
    using rOK ok1 ok2 ok3 tOK
    by (intro endsNonWs_append endsNonWs_prioritySuffix [OF pOK] endsNonWs_fieldSuffix
        endsNonWs_tagsSuffix)
       (auto simp: isTokenChar_def tagList_def dest: okDate_token)
  with d have "\<not> isWhiteSpace (last ?C)"
    by (cases "?P @ ?R @ ?S1 @ ?S2 @ ?S3 @ ?T = []") (auto simp: endsNonWs_def)
  moreover from d have "\<not> isWhiteSpace (hd ?C)" by simp
  ultimately have trim: "trim ?C = ?C" using d by (intro trim_id) simp_all

  txt \<open>The fields that the parser reads give the pieces back.\<close>
  have pr: "prioritySuffix (map_option priorityName (priorityRegex ?C)) = ?P"
    and s6: "removePriority (?d @ ?P @ ?GR @ ?G1 @ ?G2 @ ?G3 @ ?T)
               = ?d @ ?GP @ ?GR @ ?G1 @ ?G2 @ ?G3 @ ?T"
  proof -
    have y: "freeOf isPriorityGlyph ?d"
      by (intro fs) (simp_all add: kinds)
    have z: "freeOf isPriorityGlyph (?R @ ?S1 @ ?S2 @ ?S3 @ ?T)"
      by (simp, intro conjI fs) (simp_all add: kinds)
    have z': "freeOf isPriorityGlyph (?GR @ ?G1 @ ?G2 @ ?G3 @ ?T)"
      by (simp, intro conjI fs) (simp_all add: kinds)
    from priority_piece(1) [OF freeOf_ball [OF y] freeOf_ball [OF z] pOK]
    show "prioritySuffix (map_option priorityName (priorityRegex ?C)) = ?P" by simp
    from priority_piece(2) [OF freeOf_ball [OF y] freeOf_ball [OF z'] pOK]
    show "removePriority (?d @ ?P @ ?GR @ ?G1 @ ?G2 @ ?G3 @ ?T)
               = ?d @ ?GP @ ?GR @ ?G1 @ ?G2 @ ?G3 @ ?T" by simp
  qed
  have re: "fieldSuffix glyphRecurrence (recurrenceRegex ?C) = ?R"
    and s5: "removeRecurrence (?d @ ?P @ ?R @ ?G1 @ ?G2 @ ?G3 @ ?T)
               = ?d @ ?P @ ?GR @ ?G1 @ ?G2 @ ?G3 @ ?T"
  proof -
    have y: "freeOf (\<lambda>c. c = glyphRecurrence) (?d @ ?P)"
      by (simp, intro conjI fs) (simp_all add: kinds)
    have z: "freeOf (\<lambda>c. c = glyphRecurrence) (?S1 @ ?S2 @ ?S3 @ ?T)"
      by (simp, intro conjI fs) (simp_all add: kinds)
    have z': "freeOf (\<lambda>c. c = glyphRecurrence) (?G1 @ ?G2 @ ?G3 @ ?T)"
      by (simp, intro conjI fs) (simp_all add: kinds)
    have sz: "startsSpace (?S1 @ ?S2 @ ?S3 @ ?T)"
      by (intro startsSpace_append startsSpace_fieldSuffix startsSpace_tagsSuffix)
    have sz': "startsSpace (?G1 @ ?G2 @ ?G3 @ ?T)"
      by (intro startsSpace_append startsSpace_gapOf startsSpace_tagsSuffix)
    from recurrence_piece(1) [OF freeOf_notin [OF y] freeOf_notin [OF z] sz rOK]
    show "fieldSuffix glyphRecurrence (recurrenceRegex ?C) = ?R" by simp
    from recurrence_piece(2) [OF freeOf_notin [OF y] freeOf_notin [OF z'] sz' rOK]
    show "removeRecurrence (?d @ ?P @ ?R @ ?G1 @ ?G2 @ ?G3 @ ?T)
               = ?d @ ?P @ ?GR @ ?G1 @ ?G2 @ ?G3 @ ?T" by simp
  qed
  have st: "fieldSuffix glyphStart (startDateRegex ?C) = ?S1"
    and s3: "removeDates (\<lambda>c. c = glyphStart) (?d @ ?P @ ?R @ ?S1 @ ?G2 @ ?G3 @ ?T)
               = ?d @ ?P @ ?R @ ?G1 @ ?G2 @ ?G3 @ ?T"
  proof -
    have y: "freeOf (\<lambda>c. c = glyphStart) (?d @ ?P @ ?R)"
      by (simp, intro conjI fs) (simp_all add: kinds)
    have z: "freeOf (\<lambda>c. c = glyphStart) (?S2 @ ?S3 @ ?T)"
      by (simp, intro conjI fs) (simp_all add: kinds)
    have z': "freeOf (\<lambda>c. c = glyphStart) (?G2 @ ?G3 @ ?T)"
      by (simp, intro conjI fs) (simp_all add: kinds)
    have g: "glyphStart = glyphStart" "\<not> 32 = glyphStart" by (simp_all add: glyph_defs)
    from date_piece(1) [OF freeOf_ball [OF y] freeOf_ball [OF z] g ok1]
    show "fieldSuffix glyphStart (startDateRegex ?C) = ?S1"
      by (simp add: startDateRegex_def)
    from date_piece(2) [OF freeOf_ball [OF y] freeOf_ball [OF z'] g ok1]
    show "removeDates (\<lambda>c. c = glyphStart) (?d @ ?P @ ?R @ ?S1 @ ?G2 @ ?G3 @ ?T)
               = ?d @ ?P @ ?R @ ?G1 @ ?G2 @ ?G3 @ ?T" by simp
  qed
  have sc: "fieldSuffix glyphScheduled (scheduledDateRegex ?C) = ?S2"
    and s2: "removeDates (\<lambda>c. c = glyphScheduled) (?d @ ?P @ ?R @ ?S1 @ ?S2 @ ?G3 @ ?T)
               = ?d @ ?P @ ?R @ ?S1 @ ?G2 @ ?G3 @ ?T"
  proof -
    have y: "freeOf (\<lambda>c. c = glyphScheduled) (?d @ ?P @ ?R @ ?S1)"
      by (simp, intro conjI fs) (simp_all add: kinds)
    have z: "freeOf (\<lambda>c. c = glyphScheduled) (?S3 @ ?T)"
      by (simp, intro conjI fs) (simp_all add: kinds)
    have z': "freeOf (\<lambda>c. c = glyphScheduled) (?G3 @ ?T)"
      by (simp, intro conjI fs) (simp_all add: kinds)
    have g: "glyphScheduled = glyphScheduled" "\<not> 32 = glyphScheduled"
      by (simp_all add: glyph_defs)
    from date_piece(1) [OF freeOf_ball [OF y] freeOf_ball [OF z] g ok2]
    show "fieldSuffix glyphScheduled (scheduledDateRegex ?C) = ?S2"
      by (simp add: scheduledDateRegex_def)
    from date_piece(2) [OF freeOf_ball [OF y] freeOf_ball [OF z'] g ok2]
    show "removeDates (\<lambda>c. c = glyphScheduled) (?d @ ?P @ ?R @ ?S1 @ ?S2 @ ?G3 @ ?T)
               = ?d @ ?P @ ?R @ ?S1 @ ?G2 @ ?G3 @ ?T" by simp
  qed
  have du: "fieldSuffix glyphDue (dueDateRegex ?C) = ?S3"
    and s1: "removeDates isDueGlyph ?C = ?d @ ?P @ ?R @ ?S1 @ ?S2 @ ?G3 @ ?T"
  proof -
    have y: "freeOf isDueGlyph (?d @ ?P @ ?R @ ?S1 @ ?S2)"
      by (simp, intro conjI fs) (simp_all add: kinds)
    have z: "freeOf isDueGlyph ?T"
      by (intro fs) (simp_all add: kinds)
    have g: "isDueGlyph glyphDue" "\<not> isDueGlyph 32"
      by (simp_all add: isDueGlyph_def glyph_defs)
    from date_piece(1) [OF freeOf_ball [OF y] freeOf_ball [OF z] g ok3]
    show "fieldSuffix glyphDue (dueDateRegex ?C) = ?S3"
      by (simp add: dueDateRegex_def)
    from date_piece(2) [OF freeOf_ball [OF y] freeOf_ball [OF z] g ok3]
    show "removeDates isDueGlyph ?C = ?d @ ?P @ ?R @ ?S1 @ ?S2 @ ?G3 @ ?T" by simp
  qed
  have s4: "removeDates (\<lambda>c. c = glyphCreated) (?d @ ?P @ ?R @ ?G1 @ ?G2 @ ?G3 @ ?T)
              = ?d @ ?P @ ?R @ ?G1 @ ?G2 @ ?G3 @ ?T"
  proof -
    have "freeOf (\<lambda>c. c = glyphCreated) (?d @ ?P @ ?R @ ?G1 @ ?G2 @ ?G3 @ ?T)"
      by (simp, intro conjI fs) (simp_all add: kinds)
    then show ?thesis by (intro removeDates_id freeOf_ball)
  qed
  have tOK': "\<forall>t \<in> set (tagList (bTags F)). dropHash t \<noteq> []
                \<and> (\<forall>c \<in> set (dropHash t). isTagChar c \<and> \<not> isWhiteSpace c)"
    using tOK by (auto simp: isTokenChar_def)
  have tg: "tagsSuffix (Some (filter (\<lambda>tag. tag \<noteq> [])
              (map trim (hashTagsRegex True ?C)))) = ?T"
    and s7: "removeTags True (?d @ ?GP @ ?GR @ ?G1 @ ?G2 @ ?G3 @ ?T)
               = ?d @ ?GP @ ?GR @ ?G1 @ ?G2 @ ?G3"
  proof -
    have y: "freeOf (\<lambda>c. c = 35) (?d @ ?P @ ?R @ ?S1 @ ?S2 @ ?S3)"
      by (simp, intro conjI fs) (simp_all add: kinds)
    have y': "freeOf (\<lambda>c. c = 35) (?d @ ?GP @ ?GR @ ?G1 @ ?G2 @ ?G3)"
      by (simp, intro conjI fs) (simp_all add: kinds)
    have ne: "?d @ ?P @ ?R @ ?S1 @ ?S2 @ ?S3 \<noteq> []" "?d @ ?GP @ ?GR @ ?G1 @ ?G2 @ ?G3 \<noteq> []"
      using d by simp_all
    from tags_piece(1) [OF freeOf_notin [OF y] ne(1) tOK']
    show "tagsSuffix (Some (filter (\<lambda>tag. tag \<noteq> [])
              (map trim (hashTagsRegex True ?C)))) = ?T" by simp
    from tags_piece(2) [OF freeOf_notin [OF y'] ne(2) tOK']
    show "removeTags True (?d @ ?GP @ ?GR @ ?G1 @ ?G2 @ ?G3 @ ?T)
               = ?d @ ?GP @ ?GR @ ?G1 @ ?G2 @ ?G3" by simp
  qed

  txt \<open>The old description is cleared down to the description that was given.\<close>
  have "\<forall>c \<in> set (?GP @ ?GR @ ?G1 @ ?G2 @ ?G3). isWhiteSpace c"
    by (auto dest!: gapOf_chars simp: isWhiteSpace_def)
  with d have "trim (?d @ ?GP @ ?GR @ ?G1 @ ?G2 @ ?G3) = ?d"
    by (intro trim_spaces_behind)
  then have strip: "stripMetadata ?C = ?d"
    by (simp only: stripMetadata_def s1 s2 s3 s4 s5 s6 s7)

  txt \<open>The line is put together again.\<close>
  have "parseTaskLine (buildTaskMarkdown F) path n \<noteq> None"
    by (simp add: parseTaskLine_def tr)
  then obtain t where t: "parseTaskLine (buildTaskMarkdown F) path n = Some t" by blast
  then have fields: "description t = ?C" "statusSymbol t = 32"
      "priority t = priorityRegex ?C" "recurrence t = recurrenceRegex ?C"
      "startDate t = startDateRegex ?C" "scheduledDate t = scheduledDateRegex ?C"
      "dueDate t = dueDateRegex ?C"
      "tags t = filter (\<lambda>tag. tag \<noteq> []) (map trim (hashTagsRegex True ?C))"
    by (auto simp: parseTaskLine_def tr trim)
  have "updatedTaskMarkdown noOverrides (buildTaskMarkdown F) t
          = [45, 32, 91, 32, 93, 32] @ ?C"
    unfolding updatedTaskMarkdown_def build indentMatch_built
    by (simp add: noOverrides_def override_def fields strip pr re st sc du tg)
  also have "\<dots> = buildTaskMarkdown F" by (simp add: build ustr_def)
  finally show ?thesis using t by simp
qed

definition rentArgs :: buildArgs where
  "rentArgs = \<lparr>bDescription = ustr ''Pay rent'', bDueDate = Some (ustr ''2025-05-01''),
     bScheduledDate = None, bStartDate = Some (ustr ''2025-04-01''),
     bPriority = Some (ustr ''highest''), bTags = Some [ustr ''home'', ustr ''#money''],
     bRecurrence = Some (ustr ''monthly'')\<rparr>"

lemmas build_defs = buildTaskMarkdown_def prioritySuffix_def fieldSuffix_def tagsSuffix_def
  formatTag_def priorityEmojis_def updatedTaskMarkdown_def noOverrides_def override_def
  indentMatch_def stripMetadata_def removePriority_def statusMap_def

lemma canonical_rentArgs: "canonicalArgs rentArgs"
  by (simp add: canonicalArgs_def rentArgs_def okDate_def isTokenChar_def isPlainChar_def
      isMetadataGlyph_def isDueGlyph_def isPriorityGlyph_def isLineTerminator_def
      isWhiteSpace_def isTagChar_def isDigit_def isPriorityName_def ustr_def glyph_defs)

lemma reserialize_rentArgs:
  "buildTaskMarkdown rentArgs
     = ustr ''- [ ] Pay rent '' @ [glyphHigh, glyphHigh, 32, glyphRecurrence]
         @ ustr '' monthly '' @ [glyphStart] @ ustr '' 2025-04-01 '' @ [glyphDue]
         @ ustr '' 2025-05-01 #home #money'' \<and>
   map_option (updatedTaskMarkdown noOverrides (buildTaskMarkdown rentArgs))
     (parseTaskLine (buildTaskMarkdown rentArgs) (ustr ''a.md'') 1)
     = Some (buildTaskMarkdown rentArgs)"
  using reserialize_canonical [OF canonical_rentArgs, of "ustr ''a.md''" 1]
  by (simp add: rentArgs_def build_defs ustr_def)

text \<open>
  A field set with the recurrence \<open>every week\<close>, and the vault in which \<open>add_task\<close> has
  created the file \<open>a.md\<close> from it: the line and a line feed.
\<close>

definition weeklyArgs :: buildArgs where
  "weeklyArgs = \<lparr>bDescription = ustr ''Water plants'', bDueDate = None,
     bScheduledDate = None, bStartDate = None, bPriority = None, bTags = None,
     bRecurrence = Some (ustr ''every week'')\<rparr>"

definition vault2 :: vault where
  "vault2 =
     (\<lambda>p. if p = ustr ''a.md'' then Some (TFile (buildTaskMarkdown weeklyArgs @ [10])) else None)"

text \<open>
  Claim C9 at the recurrence \<open>every week\<close>, which is the form that the description of
  the tools gives for a recurrence. The builder writes it behind the glyph. The parser
  reads the first word, \<open>every\<close>, as the recurrence of the task. An update without any
  field argument, which is to keep every field, clears the glyph and that first word
  from the description, leaves \<open>week\<close> behind and appends the recurrence \<open>every\<close>: the
  line that is written to the file is not the line that was there.
\<close>

theorem noop_update_changes_line:
  "buildTaskMarkdown weeklyArgs
     = ustr ''- [ ] Water plants '' @ [glyphRecurrence] @ ustr '' every week'' \<and>
   map_option recurrence (parseTaskLine (buildTaskMarkdown weeklyArgs) (ustr ''a.md'') 1)
     = Some (Some (ustr ''every'')) \<and>
   map_option (updatedTaskMarkdown noOverrides (buildTaskMarkdown weeklyArgs))
     (parseTaskLine (buildTaskMarkdown weeklyArgs) (ustr ''a.md'') 1)
     = Some (ustr ''- [ ] Water plants  week '' @ [glyphRecurrence] @ ustr '' every'') \<and>
   map_option (updatedTaskMarkdown noOverrides (buildTaskMarkdown weeklyArgs))
     (parseTaskLine (buildTaskMarkdown weeklyArgs) (ustr ''a.md'') 1)
     \<noteq> Some (buildTaskMarkdown weeklyArgs) \<and>
   snd (update_task vault2
          \<lparr>taskId = Some (ustr ''a.md:1''), filePathArg = None, lineNumberArg = None\<rparr>
          noOverrides) (ustr ''a.md'')
     = Some (TFile (ustr ''- [ ] Water plants  week '' @ [glyphRecurrence] @ ustr '' every''
               @ [10]))"
  by (simp add: weeklyArgs_def vault2_def build_defs parse_defs glyph_defs op_defs codec_defs
      toNumber_exact lineIndex_def lineValue_def writeLines_def split.simps)

end
